theory Spec2Isabelle
  imports
    Main
    "HOL-Library.Char_ord"
    "HOL-Library.List_Lexorder"
    "HOL-Library.Log_Nat"
begin

section \<open>Go's float64\<close>

text \<open>
  The engine computes every support and every rule metric in \<^verbatim>\<open>float64\<close>. A value is
  a NaN, an infinity with its sign bit, or a finite number given by its sign bit and its
  magnitude (so that the two zeros are told apart). An arithmetic operation computes the
  exact rational result and rounds it to the nearest binary64 number, ties to even: 53
  bits of precision, exponents from \<open>-1022\<close> to \<open>1023\<close>, gradual underflow. The sign bit
  \<open>True\<close> is the negative one.
\<close>

datatype float64 = NaN | Infinity bool | Finite bool rat

definition pow2 :: "int \<Rightarrow> rat" where
  "pow2 e = (if 0 \<le> e then 2 ^ nat e else 1 / 2 ^ nat (- e))"

definition ilog2 :: "rat \<Rightarrow> int" where
  \<comment> \<open>the binade of a positive rational: \<open>2 ^ e \<le> a < 2 ^ (e + 1)\<close>\<close>
  "ilog2 a = (let k = bitlen (fst (quotient_of a)) - bitlen (snd (quotient_of a))
              in if pow2 k \<le> a then k else k - 1)"

definition roundHalfEven :: "rat \<Rightarrow> int" where
  "roundHalfEven m =
     (let f = \<lfloor>m\<rfloor>; d = m - of_int f
      in if d < 1 / 2 then f else if 1 / 2 < d then f + 1 else if even f then f else f + 1)"

definition round64 :: "bool \<Rightarrow> rat \<Rightarrow> float64" where
  \<comment> \<open>round a sign and an exact magnitude \<open>a \<ge> 0\<close> to binary64\<close>
  "round64 s a =
     (if a = 0 then Finite s 0
      else let e = max (ilog2 a) (- 1022);
               u = pow2 (e - 52);
               r = of_int (roundHalfEven (a / u)) * u
           in if pow2 1024 \<le> r then Infinity s else Finite s r)"

definition quantum :: "rat \<Rightarrow> rat" where
  \<comment> \<open>the spacing of the binary64 numbers in the binade of \<open>a\<close>\<close>
  "quantum a = pow2 (max (ilog2 a) (- 1022) - 52)"

definition onGrid :: "rat \<Rightarrow> bool" where
  \<comment> \<open>the magnitudes of the finite binary64 numbers, at most \<open>2 ^ 1024\<close>\<close>
  "onGrid c \<longleftrightarrow> (\<exists>n e. c = of_int n * pow2 (e - 52) \<and> 0 \<le> n \<and> n \<le> 2 ^ 53 \<and> - 1022 \<le> e)"

definition f64_of_int :: "int \<Rightarrow> float64" where
  \<comment> \<open>the conversion \<^verbatim>\<open>float64(n)\<close> of an integer\<close>
  "f64_of_int n = round64 (n < 0) (abs (of_int n))"

definition f64_one :: float64 where
  "f64_one = Finite False 1"

definition f64_inf :: float64 where
  \<comment> \<open>\<^verbatim>\<open>math.Inf(1)\<close>\<close>
  "f64_inf = Infinity False"

definition signed :: "bool \<Rightarrow> rat \<Rightarrow> rat" where
  "signed s a = (if s then - a else a)"

fun fdiv :: "float64 \<Rightarrow> float64 \<Rightarrow> float64" where
  "fdiv NaN _ = NaN"
| "fdiv _ NaN = NaN"
| "fdiv (Infinity s) (Infinity t) = NaN"
| "fdiv (Infinity s) (Finite t b) = Infinity (s \<noteq> t)"
| "fdiv (Finite s a) (Infinity t) = Finite (s \<noteq> t) 0"
| "fdiv (Finite s a) (Finite t b) =
     (if b = 0 then (if a = 0 then NaN else Infinity (s \<noteq> t))
      else round64 (s \<noteq> t) (abs a / abs b))"

fun fmul :: "float64 \<Rightarrow> float64 \<Rightarrow> float64" where
  "fmul NaN _ = NaN"
| "fmul _ NaN = NaN"
| "fmul (Infinity s) (Infinity t) = Infinity (s \<noteq> t)"
| "fmul (Infinity s) (Finite t b) = (if b = 0 then NaN else Infinity (s \<noteq> t))"
| "fmul (Finite s a) (Infinity t) = (if a = 0 then NaN else Infinity (s \<noteq> t))"
| "fmul (Finite s a) (Finite t b) = round64 (s \<noteq> t) (abs a * abs b)"

fun fsub :: "float64 \<Rightarrow> float64 \<Rightarrow> float64" where
  "fsub NaN _ = NaN"
| "fsub _ NaN = NaN"
| "fsub (Infinity s) (Infinity t) = (if s = t then NaN else Infinity s)"
| "fsub (Infinity s) (Finite t b) = Infinity s"
| "fsub (Finite s a) (Infinity t) = Infinity (\<not> t)"
| "fsub (Finite s a) (Finite t b) =
     (let d = signed s (abs a) - signed t (abs b)
      in if d = 0 then Finite (s \<and> \<not> t \<and> a = 0) 0 else round64 (d < 0) (abs d))"

fun fge :: "float64 \<Rightarrow> float64 \<Rightarrow> bool" where
  \<comment> \<open>the comparison \<^verbatim>\<open>x >= y\<close>: false as soon as one side is a NaN\<close>
  "fge NaN _ = False"
| "fge _ NaN = False"
| "fge (Infinity s) (Infinity t) = (\<not> s \<or> t)"
| "fge (Infinity s) (Finite t b) = (\<not> s)"
| "fge (Finite s a) (Infinity t) = t"
| "fge (Finite s a) (Finite t b) = (signed t (abs b) \<le> signed s (abs a))"

fun flt :: "float64 \<Rightarrow> float64 \<Rightarrow> bool" where
  \<comment> \<open>the comparison \<^verbatim>\<open>x < y\<close>\<close>
  "flt NaN _ = False"
| "flt _ NaN = False"
| "flt (Infinity s) (Infinity t) = (s \<and> \<not> t)"
| "flt (Infinity s) (Finite t b) = s"
| "flt (Finite s a) (Infinity t) = (\<not> t)"
| "flt (Finite s a) (Finite t b) = (signed s (abs a) < signed t (abs b))"

fun feq :: "float64 \<Rightarrow> float64 \<Rightarrow> bool" where
  \<comment> \<open>the comparison \<^verbatim>\<open>x == y\<close>: a NaN equals nothing, the two zeros are equal\<close>
  "feq NaN _ = False"
| "feq _ NaN = False"
| "feq (Infinity s) (Infinity t) = (s = t)"
| "feq (Infinity s) (Finite t b) = False"
| "feq (Finite s a) (Infinity t) = False"
| "feq (Finite s a) (Finite t b) = (signed s (abs a) = signed t (abs b))"

section \<open>Data model\<close>

text \<open>
  The structs of \<^verbatim>\<open>internal/models\<close>. A slice is a list and a string a list of bytes,
  ordered as Go orders strings. A Go \<^verbatim>\<open>int\<close> (64 bits) is modelled by \<open>int\<close>; where the
  code can leave the 64 bits, in \<^verbatim>\<open>generateAllSubsets\<close>, the wrap-around is written out.
\<close>

type_synonym Transaction = "string list"

record Dataset =
  Transactions :: "Transaction list"
  UniqueItems :: "string list"
  ItemsMap :: "string \<rightharpoonup> bool"

record AssociationRule =
  Antecedent :: "string list"
  Consequent :: "string list"
  Support :: float64
  Confidence :: float64
  Lift :: float64
  LeverageMetric :: float64
  ConvictionMetric :: float64

record FrequentItemset =
  Items :: "string list"
  Support :: float64
  Length :: int

section \<open>Helpers\<close>

text \<open>
  A runtime panic of the Go code is a value: an index out of range, or a \<^verbatim>\<open>make\<close> whose
  length or capacity is out of range. Running out of memory is not modelled.
\<close>

text \<open>
  Each function of the engine is embedded as a function of its arguments, which is what the
  source is read to be: it ranges over slices only and never over a Go map (\<^verbatim>\<open>itemsetMap\<close>
  and the table of \<^verbatim>\<open>difference\<close> are written and looked up by key), it starts no goroutine,
  it reads no clock, random source or package variable, and it writes to no slice it was
  given (the slices it sorts or appends to are fresh). That two runs on the same arguments
  return the same lists is thereby part of the embedding, and no theorem of it.
\<close>

datatype error = IndexOutOfRange | MakeSliceOutOfRange

fun containsItem :: "Transaction \<Rightarrow> string \<Rightarrow> bool" where
  "containsItem [] item = False"
| "containsItem (t # ts) item = (if t = item then True else containsItem ts item)"

fun isSubset :: "string list \<Rightarrow> Transaction \<Rightarrow> bool" where
  "isSubset [] transaction = True"
| "isSubset (item # items) transaction =
     (if \<not> containsItem transaction item then False else isSubset items transaction)"

definition slicesEqual :: "string list \<Rightarrow> string list \<Rightarrow> bool" where
  "slicesEqual a b =
     (if length a \<noteq> length b then False else list_all (\<lambda>i. a ! i = b ! i) [0..<length a])"

definition difference :: "string list \<Rightarrow> string list \<Rightarrow> string list" where
  \<comment> \<open>\<open>bMap\<close> is the lookup table of \<open>b\<close>; a missing key reads as \<^verbatim>\<open>false\<close>\<close>
  "difference a b =
     (let bMap = fold (\<lambda>item m. m(item \<mapsto> True)) b (Map.empty :: string \<rightharpoonup> bool)
      in filter (\<lambda>item. \<not> (case bMap item of None \<Rightarrow> False | Some v \<Rightarrow> v)) a)"

definition maskSubset :: "string list \<Rightarrow> nat \<Rightarrow> string list" where
  \<comment> \<open>the items at the positions \<open>j\<close> with \<^verbatim>\<open>i & (1 << j) > 0\<close>\<close>
  "maskSubset set_items i =
     map (\<lambda>j. set_items ! j) (filter (\<lambda>j. 0 < and i (push_bit j 1)) [0..<length set_items])"

definition wrap64 :: "int \<Rightarrow> int" where
  \<comment> \<open>the value of a 64-bit \<^verbatim>\<open>int\<close> after an operation whose exact result is \<open>x\<close>\<close>
  "wrap64 x = (x + 2 ^ 63) mod 2 ^ 64 - 2 ^ 63"

definition maxAlloc :: int where
  \<comment> \<open>the largest allocation of the Go runtime where heap addresses have 48 bits\<close>
  "maxAlloc = 2 ^ 48"

definition makesliceOk :: "int \<Rightarrow> int \<Rightarrow> bool" where
  \<comment> \<open>\<^verbatim>\<open>make\<close> of a slice of length 0 and capacity \<open>cap\<close>, of elements of \<open>elemSize\<close> bytes: the
      runtime panics when the capacity is negative or its bytes exceed \<^verbatim>\<open>maxAlloc\<close>\<close>
  "makesliceOk elemSize cap \<longleftrightarrow> 0 \<le> cap \<and> elemSize * cap \<le> maxAlloc"

definition generateAllSubsets :: "string list \<Rightarrow> error + string list list" where
  \<comment> \<open>\<^verbatim>\<open>count := 1 << uint(n)\<close> is a 64-bit \<^verbatim>\<open>int\<close>: \<open>- 2 ^ 63\<close> for \<open>n = 63\<close> and \<open>0\<close> from
      \<open>n = 64\<close> on. The elements of \<^verbatim>\<open>result\<close> are slice headers of 24 bytes, and \<^verbatim>\<open>make\<close>
      panics on the capacity \<^verbatim>\<open>count-1\<close> from \<open>n = 44\<close> on.\<close>
  "generateAllSubsets set_items =
     (let n = length set_items;
          count = wrap64 (if n < 64 then 2 ^ n else 0);
          cap = wrap64 (count - 1)
      in if \<not> makesliceOk 24 cap then Inl MakeSliceOutOfRange
         else Inr (map (maskSubset set_items) [1..<nat count]))"

fun Join :: "string list \<Rightarrow> string \<Rightarrow> string" where
  \<comment> \<open>\<^verbatim>\<open>strings.Join\<close>\<close>
  "Join [] sep = []"
| "Join [x] sep = x"
| "Join (x # y # ys) sep = x @ sep @ Join (y # ys) sep"

section \<open>Candidate generation\<close>

fun canJoinLoop :: "nat \<Rightarrow> string list \<Rightarrow> string list \<Rightarrow> error + bool" where
  \<comment> \<open>the loop over \<open>l < k - 2\<close>, from position \<open>l\<close> on: reading past the end of either
      slice panics, the first difference leaves the loop\<close>
  "canJoinLoop 0 xs ys = Inr True"
| "canJoinLoop (Suc n) (x # xs) (y # ys) = (if x \<noteq> y then Inr False else canJoinLoop n xs ys)"
| "canJoinLoop (Suc n) xs ys = Inl IndexOutOfRange"

definition removeAt :: "nat \<Rightarrow> string list \<Rightarrow> string list" where
  \<comment> \<open>\<^verbatim>\<open>subset\<close>: the candidate without its position \<open>l\<close>\<close>
  "removeAt l candidate = take l candidate @ drop (Suc l) candidate"

definition isValid :: "FrequentItemset list \<Rightarrow> string list \<Rightarrow> nat \<Rightarrow> bool" where
  \<comment> \<open>the prune loop over \<open>l < k\<close>\<close>
  "isValid itemsets candidate k =
     list_all (\<lambda>l. list_ex (\<lambda>itemset. slicesEqual (Items itemset) (removeAt l candidate)) itemsets)
       [0..<k]"

definition joinPair ::
  "int \<Rightarrow> FrequentItemset list \<Rightarrow> FrequentItemset \<Rightarrow> FrequentItemset
     \<Rightarrow> error + FrequentItemset option" where
  \<comment> \<open>the body of the two loops for \<^verbatim>\<open>itemsets[i]\<close> and \<^verbatim>\<open>itemsets[j]\<close>; \<open>None\<close> is
      \<^verbatim>\<open>continue\<close>, \<open>Some\<close> the candidate appended\<close>
  "joinPair k itemsets a b =
     (case (if 2 < k then canJoinLoop (nat (k - 2)) (Items a) (Items b) else Inr True) of
        Inl e \<Rightarrow> Inl e
      | Inr canJoin \<Rightarrow>
          if \<not> canJoin then Inr None
          else if k < 0 then Inl MakeSliceOutOfRange
          else if k < 2 \<or> int (length (Items b)) \<le> k - 2 then Inl IndexOutOfRange
          else
            let candidate =
                  sort ((take (nat k) (Items a @ replicate (nat k) []))
                          [nat (k - 1) := Items b ! nat (k - 2)])
            in if 2 < k \<and> \<not> isValid itemsets candidate (nat k) then Inr None
               else Inr (Some \<lparr>Items = candidate, Support = Finite False 0, Length = k\<rparr>))"

fun joinWithRest ::
  "int \<Rightarrow> FrequentItemset list \<Rightarrow> FrequentItemset \<Rightarrow> FrequentItemset list
     \<Rightarrow> error + FrequentItemset list" where
  \<comment> \<open>the loop over \<open>j\<close>, on the itemsets after \<^verbatim>\<open>itemsets[i]\<close>\<close>
  "joinWithRest k itemsets a [] = Inr []"
| "joinWithRest k itemsets a (b # bs) =
     (case joinPair k itemsets a b of
        Inl e \<Rightarrow> Inl e
      | Inr c \<Rightarrow>
          (case joinWithRest k itemsets a bs of
             Inl e \<Rightarrow> Inl e
           | Inr cs \<Rightarrow> Inr (case c of None \<Rightarrow> cs | Some x \<Rightarrow> x # cs)))"

fun joinAll ::
  "int \<Rightarrow> FrequentItemset list \<Rightarrow> FrequentItemset list \<Rightarrow> error + FrequentItemset list" where
  \<comment> \<open>the loop over \<open>i\<close>, on the itemsets from \<^verbatim>\<open>itemsets[i]\<close> on\<close>
  "joinAll k itemsets [] = Inr []"
| "joinAll k itemsets (a # rest) =
     (case joinWithRest k itemsets a rest of
        Inl e \<Rightarrow> Inl e
      | Inr cs \<Rightarrow>
          (case joinAll k itemsets rest of
             Inl e \<Rightarrow> Inl e
           | Inr ds \<Rightarrow> Inr (cs @ ds)))"

definition generateCandidates ::
  "FrequentItemset list \<Rightarrow> int \<Rightarrow> error + FrequentItemset list" where
  "generateCandidates itemsets k = joinAll k itemsets itemsets"

section \<open>Mining\<close>

text \<open>
  The counters \<^verbatim>\<open>count\<close> never exceed the number of transactions. The level \<open>k\<close> is
  incremented only after a level that is not empty, so \<^verbatim>\<open>k++\<close> would leave the 64 bits
  only after \<open>2 ^ 63 - 2\<close> such levels: \<open>k\<close> is not wrapped.
\<close>

definition support1 :: "Dataset \<Rightarrow> string \<Rightarrow> float64" where
  \<comment> \<open>level 1: the transactions that contain the item, over \<^verbatim>\<open>transactionCount\<close>\<close>
  "support1 dataset item =
     fdiv (f64_of_int (int (length (filter (\<lambda>transaction. containsItem transaction item)
                                      (Transactions dataset)))))
          (f64_of_int (int (length (Transactions dataset))))"

definition supportK :: "Dataset \<Rightarrow> string list \<Rightarrow> float64" where
  \<comment> \<open>level \<open>k\<close>: the transactions that contain every item of the candidate\<close>
  "supportK dataset items =
     fdiv (f64_of_int (int (length (filter (\<lambda>transaction. isSubset items transaction)
                                      (Transactions dataset)))))
          (f64_of_int (int (length (Transactions dataset))))"

definition findL1 :: "Dataset \<Rightarrow> float64 \<Rightarrow> FrequentItemset list" where
  "findL1 dataset minSupport =
     concat (map (\<lambda>item.
        let support = support1 dataset item
        in if fge support minSupport then [\<lparr>Items = [item], Support = support, Length = 1\<rparr>]
           else []) (UniqueItems dataset))"

definition findLk :: "Dataset \<Rightarrow> float64 \<Rightarrow> int \<Rightarrow> FrequentItemset list \<Rightarrow> FrequentItemset list" where
  "findLk dataset minSupport k Ck =
     concat (map (\<lambda>candidate.
        let support = supportK dataset (Items candidate)
        in if fge support minSupport
           then [\<lparr>Items = Items candidate, Support = support, Length = k\<rparr>]
           else []) Ck)"

function levelLoop ::
  "Dataset \<Rightarrow> float64 \<Rightarrow> int \<Rightarrow> int \<Rightarrow> FrequentItemset list \<Rightarrow> FrequentItemset list
     \<Rightarrow> error + FrequentItemset list" where
  \<comment> \<open>the loop \<^verbatim>\<open>for k := 2; k <= maxLen; k++\<close>, entered at \<open>k\<close> with \<^verbatim>\<open>Lk_1\<close> and \<^verbatim>\<open>result\<close>\<close>
  "levelLoop dataset minSupport maxLen k Lk_1 result =
     (if k \<le> maxLen then
        (case generateCandidates Lk_1 k of
           Inl e \<Rightarrow> Inl e
         | Inr Ck \<Rightarrow>
             let Lk = findLk dataset minSupport k Ck
             in if length Lk = 0 then Inr result
                else levelLoop dataset minSupport maxLen (k + 1) Lk (result @ Lk))
      else Inr result)"
  by pat_completeness auto
termination
  by (relation "measure (\<lambda>(dataset, minSupport, maxLen, k, Lk_1, result). nat (maxLen + 1 - k))")
    auto

definition FindFrequentItemsets ::
  "Dataset \<Rightarrow> float64 \<Rightarrow> int \<Rightarrow> error + FrequentItemset list" where
  "FindFrequentItemsets dataset minSupport maxLen =
     (let L1 = findL1 dataset minSupport
      in levelLoop dataset minSupport maxLen 2 L1 ([] @ L1))"

declare levelLoop.simps [simp del]

section \<open>Rule generation\<close>

definition buildItemsetMap :: "FrequentItemset list \<Rightarrow> (string \<rightharpoonup> float64)" where
  \<comment> \<open>\<^verbatim>\<open>itemsetMap\<close>: a later itemset with the same key overwrites an earlier one\<close>
  "buildItemsetMap itemsets =
     fold (\<lambda>itemset m. m(Join (Items itemset) '','' \<mapsto> Support itemset)) itemsets Map.empty"

text \<open>
  The metrics are computed one operation at a time, each rounded: in \<^verbatim>\<open>leverage\<close> the
  product is rounded before the subtraction, as on a target where the compiler does not
  fuse the two.
\<close>

definition conviction :: "float64 \<Rightarrow> float64 \<Rightarrow> float64" where
  "conviction consequentSupport confidence =
     (if feq consequentSupport f64_one \<or> feq confidence f64_one then f64_inf
      else fdiv (fsub f64_one consequentSupport) (fsub f64_one confidence))"

text \<open>
  What the loop body does with one antecedent: one of the two \<^verbatim>\<open>continue\<close> of a failed
  lookup, the \<^verbatim>\<open>continue\<close> of an empty or full antecedent, a confidence below the
  threshold, or a rule appended.
\<close>

datatype outcome =
    SkipTrivial
  | MissingAntecedent
  | BelowConfidence
  | MissingConsequent
  | Emit AssociationRule

definition ruleStep ::
  "(string \<rightharpoonup> float64) \<Rightarrow> float64 \<Rightarrow> FrequentItemset \<Rightarrow> string list \<Rightarrow> outcome" where
  "ruleStep itemsetMap minConfidence itemset antecedent =
     (if length antecedent = 0 \<or> length antecedent = length (Items itemset) then SkipTrivial
      else
        let consequent = difference (Items itemset) antecedent
        in case itemsetMap (Join antecedent '','') of
             None \<Rightarrow> MissingAntecedent
           | Some antecedentSupport \<Rightarrow>
               let confidence = fdiv (Support itemset) antecedentSupport
               in if fge confidence minConfidence then
                    (case itemsetMap (Join consequent '','') of
                       None \<Rightarrow> MissingConsequent
                     | Some consequentSupport \<Rightarrow>
                         Emit \<lparr>Antecedent = antecedent,
                               Consequent = consequent,
                               Support = Support itemset,
                               Confidence = confidence,
                               Lift = fdiv confidence consequentSupport,
                               LeverageMetric =
                                 fsub (Support itemset) (fmul antecedentSupport consequentSupport),
                               ConvictionMetric = conviction consequentSupport confidence\<rparr>)
                  else BelowConfidence)"

definition itemsetSteps ::
  "(string \<rightharpoonup> float64) \<Rightarrow> float64 \<Rightarrow> FrequentItemset \<Rightarrow> error + outcome list" where
  \<comment> \<open>the outer loop body: nothing for an itemset with \<^verbatim>\<open>Length <= 1\<close>\<close>
  "itemsetSteps itemsetMap minConfidence itemset =
     (if Length itemset \<le> 1 then Inr []
      else case generateAllSubsets (Items itemset) of
             Inl e \<Rightarrow> Inl e
           | Inr antecedents \<Rightarrow> Inr (map (ruleStep itemsetMap minConfidence itemset) antecedents))"

fun stepsLoop ::
  "(string \<rightharpoonup> float64) \<Rightarrow> float64 \<Rightarrow> FrequentItemset list \<Rightarrow> error + outcome list" where
  "stepsLoop itemsetMap minConfidence [] = Inr []"
| "stepsLoop itemsetMap minConfidence (itemset # rest) =
     (case itemsetSteps itemsetMap minConfidence itemset of
        Inl e \<Rightarrow> Inl e
      | Inr os \<Rightarrow>
          (case stepsLoop itemsetMap minConfidence rest of
             Inl e \<Rightarrow> Inl e
           | Inr ps \<Rightarrow> Inr (os @ ps)))"

definition ruleOutcomes :: "FrequentItemset list \<Rightarrow> float64 \<Rightarrow> error + outcome list" where
  \<comment> \<open>the branch taken for every antecedent enumerated, in the order of the loops\<close>
  "ruleOutcomes itemsets minConfidence =
     stepsLoop (buildItemsetMap itemsets) minConfidence itemsets"

fun emitted :: "outcome list \<Rightarrow> AssociationRule list" where
  "emitted [] = []"
| "emitted (Emit r # os) = r # emitted os"
| "emitted (_ # os) = emitted os"

definition GenerateAssociationRules ::
  "FrequentItemset list \<Rightarrow> float64 \<Rightarrow> error + AssociationRule list" where
  "GenerateAssociationRules itemsets minConfidence =
     (case ruleOutcomes itemsets minConfidence of
        Inl e \<Rightarrow> Inl e
      | Inr os \<Rightarrow> Inr (emitted os))"

section \<open>The dataset of the example\<close>

definition exampleDataset :: Dataset where
  "exampleDataset =
     \<lparr>Transactions =
        [[''bread'', ''milk''], [''bread'', ''butter''], [''bread'', ''milk'', ''butter''],
         [''milk'']],
      UniqueItems = [''bread'', ''butter'', ''milk''],
      ItemsMap = [''bread'' \<mapsto> True, ''butter'' \<mapsto> True, ''milk'' \<mapsto> True]\<rparr>"

definition exampleItemsets :: "FrequentItemset list" where
  \<comment> \<open>what mining returns on it for \<^verbatim>\<open>minSupport = 0.5\<close> and \<^verbatim>\<open>maxLen = 2\<close>\<close>
  "exampleItemsets =
     [\<lparr>Items = [''bread''], Support = Finite False (3 / 4), Length = 1\<rparr>,
      \<lparr>Items = [''butter''], Support = Finite False (1 / 2), Length = 1\<rparr>,
      \<lparr>Items = [''milk''], Support = Finite False (3 / 4), Length = 1\<rparr>,
      \<lparr>Items = [''bread'', ''butter''], Support = Finite False (1 / 2), Length = 2\<rparr>,
      \<lparr>Items = [''bread'', ''milk''], Support = Finite False (1 / 2), Length = 2\<rparr>]"

definition exampleRules :: "AssociationRule list" where
  \<comment> \<open>the rules of these itemsets for \<^verbatim>\<open>minConfidence = 0.6\<close>\<close>
  "exampleRules =
     [\<lparr>Antecedent = [''bread''], Consequent = [''butter''],
         Support = Finite False (1 / 2),
         Confidence = Finite False (6004799503160661 / 9007199254740992),
         Lift = Finite False (6004799503160661 / 4503599627370496),
         LeverageMetric = Finite False (1 / 8),
         ConvictionMetric = Finite False (6755399441055743 / 4503599627370496)\<rparr>,
      \<lparr>Antecedent = [''butter''], Consequent = [''bread''],
         Support = Finite False (1 / 2), Confidence = Finite False 1,
         Lift = Finite False (6004799503160661 / 4503599627370496),
         LeverageMetric = Finite False (1 / 8),
         ConvictionMetric = Infinity False\<rparr>,
      \<lparr>Antecedent = [''bread''], Consequent = [''milk''],
         Support = Finite False (1 / 2),
         Confidence = Finite False (6004799503160661 / 9007199254740992),
         Lift = Finite False (2001599834386887 / 2251799813685248),
         LeverageMetric = Finite True (1 / 16),
         ConvictionMetric = Finite False (6755399441055743 / 9007199254740992)\<rparr>,
      \<lparr>Antecedent = [''milk''], Consequent = [''bread''],
         Support = Finite False (1 / 2),
         Confidence = Finite False (6004799503160661 / 9007199254740992),
         Lift = Finite False (2001599834386887 / 2251799813685248),
         LeverageMetric = Finite True (1 / 16),
         ConvictionMetric = Finite False (6755399441055743 / 9007199254740992)\<rparr>]"


section \<open>Invariants\<close>

text \<open>
  The invariants of a dataset: the universe is strictly sorted (so it has no duplicate), a
  transaction has no duplicate, and every item of a transaction is in the universe.
\<close>

definition datasetOk :: "Dataset \<Rightarrow> bool" where
  "datasetOk dataset \<longleftrightarrow>
     sorted_wrt (<) (UniqueItems dataset)
     \<and> list_all (\<lambda>transaction. distinct transaction
           \<and> list_all (\<lambda>item. item \<in> set (UniqueItems dataset)) transaction)
         (Transactions dataset)"

definition unitSupport :: "float64 \<Rightarrow> bool" where
  \<comment> \<open>a support between 0 and 1\<close>
  "unitSupport s \<longleftrightarrow> fge s (Finite False 0) \<and> fge f64_one s"

definition parents :: "nat \<Rightarrow> string list \<Rightarrow> string list set" where
  \<comment> \<open>a candidate of \<open>n + 2\<close> sorted items without its last, and without its last but one\<close>
  "parents n c = {removeAt n c, removeAt (Suc n) c}"

definition levelOk :: "nat \<Rightarrow> FrequentItemset list \<Rightarrow> bool" where
  \<comment> \<open>a level: pairwise distinct itemsets of \<open>n\<close> strictly sorted items\<close>
  "levelOk n itemsets \<longleftrightarrow>
     list_all (\<lambda>a. length (Items a) = n \<and> sorted_wrt (<) (Items a)) itemsets
     \<and> distinct (map Items itemsets)"

definition resultOk :: "FrequentItemset list \<Rightarrow> bool" where
  \<comment> \<open>the invariant of \<^verbatim>\<open>result\<close>: well-formed, pairwise distinct itemsets, and with every
      itemset of two items or more each of its subsets with one item less\<close>
  "resultOk result \<longleftrightarrow>
     list_all (\<lambda>F. 1 \<le> length (Items F) \<and> Length F = int (length (Items F))
                  \<and> sorted_wrt (<) (Items F)) result
     \<and> distinct (map Items result)
     \<and> list_all (\<lambda>F. 1 < length (Items F) \<longrightarrow>
          list_all (\<lambda>l. removeAt l (Items F) \<in> Items ` set result) [0..<length (Items F)]) result"

section \<open>Facts about the float64 arithmetic\<close>

subsection \<open>Powers of two and binades\<close>

lemma pow2_powi: "pow2 e = power_int 2 e"
  by (simp add: pow2_def power_int_def field_simps)

lemma pow2_pos [simp]: "0 < pow2 e"
  by (simp add: pow2_powi)

lemma pow2_add: "pow2 (a + b) = pow2 a * pow2 b"
  by (simp add: pow2_powi power_int_add)

lemma pow2_0 [simp]: "pow2 0 = 1"
  by (simp add: pow2_def)

lemma pow2_mono: "a \<le> b \<Longrightarrow> pow2 a \<le> pow2 b"
  by (simp add: pow2_powi power_int_increasing)

lemma pow2_strict_mono: "a < b \<Longrightarrow> pow2 a < pow2 b"
  by (simp add: pow2_powi power_int_strict_increasing)

lemma pow2_le_iff [simp]: "pow2 a \<le> pow2 b \<longleftrightarrow> a \<le> b"
  by (metis pow2_mono pow2_strict_mono not_le)

lemma pow2_less_iff [simp]: "pow2 a < pow2 b \<longleftrightarrow> a < b"
  by (metis pow2_mono pow2_strict_mono not_le)

lemma pow2_nat: "0 \<le> e \<Longrightarrow> pow2 e = of_int (2 ^ nat e)"
  by (simp add: pow2_def)

lemma pow2_1 [simp]: "pow2 1 = 2"
  by (simp add: pow2_def)

lemma ilog2_bounds:
  assumes "0 < a"
  shows "pow2 (ilog2 a) \<le> a \<and> a < pow2 (ilog2 a + 1)"
proof -
  obtain p q where pq: "quotient_of a = (p, q)" by (cases "quotient_of a")
  have q: "0 < q" using pq quotient_of_denom_pos by blast
  have a: "a = of_int p / of_int q" using pq quotient_of_div by blast
  have p: "0 < p" using assms a q by (simp add: zero_less_divide_iff)
  define k where "k = bitlen p - bitlen q"
  have bp: "2 ^ nat (bitlen p - 1) \<le> p" "p < 2 ^ nat (bitlen p)"
    using bitlen_bounds[OF p] by auto
  have bq: "2 ^ nat (bitlen q - 1) \<le> q" "q < 2 ^ nat (bitlen q)"
    using bitlen_bounds[OF q] by auto
  have bp1: "1 \<le> bitlen p" using p by (simp add: bitlen_alt_def)
  have bq1: "1 \<le> bitlen q" using q by (simp add: bitlen_alt_def)
  have P1: "pow2 (bitlen p - 1) \<le> of_int p"
    using bp(1) bp1 by (simp add: pow2_nat del: of_int_power) 
  have P2: "of_int p < pow2 (bitlen p)"
    using bp(2) bp1 by (simp add: pow2_nat del: of_int_power)
  have Q1: "pow2 (bitlen q - 1) \<le> of_int q"
    using bq(1) bq1 by (simp add: pow2_nat del: of_int_power)
  have Q2: "of_int q < pow2 (bitlen q)"
    using bq(2) bq1 by (simp add: pow2_nat del: of_int_power)
  have qpos: "(0::rat) < of_int q" using q by simp
  have up: "a < pow2 (k + 1)"
  proof -
    have "of_int p < pow2 (bitlen p - bitlen q + 1) * pow2 (bitlen q - 1)"
      using P2 by (simp add: pow2_add[symmetric])
    also have "\<dots> \<le> pow2 (bitlen p - bitlen q + 1) * of_int q"
      using Q1 by (simp add: mult_left_mono)
    finally show ?thesis using qpos by (simp add: a k_def pos_divide_less_eq)
  qed
  have lo: "pow2 (k - 1) < a"
  proof -
    have "pow2 (bitlen p - bitlen q - 1) * of_int q < pow2 (bitlen p - bitlen q - 1) * pow2 (bitlen q)"
      using Q2 by (simp add: mult_strict_left_mono)
    also have "\<dots> = pow2 (bitlen p - 1)" by (simp add: pow2_add[symmetric])
    also have "\<dots> \<le> of_int p" by (rule P1)
    finally show ?thesis using qpos by (simp add: a k_def pos_less_divide_eq)
  qed
  show ?thesis
  proof (cases "pow2 k \<le> a")
    case True
    then show ?thesis using up by (simp add: ilog2_def pq k_def Let_def)
  next
    case False
    then show ?thesis using lo by (simp add: ilog2_def pq k_def Let_def)
  qed
qed

lemma ilog2_unique:
  assumes "pow2 e \<le> a" "a < pow2 (e + 1)"
  shows "ilog2 a = e"
proof -
  have a: "0 < a" using assms(1) pow2_pos[of e] by linarith
  note b = ilog2_bounds[OF a]
  have "pow2 e < pow2 (ilog2 a + 1)" using assms(1) b by linarith
  moreover have "pow2 (ilog2 a) < pow2 (e + 1)" using assms(2) b by linarith
  ultimately show ?thesis by simp
qed

subsection \<open>Rounding to the nearest integer, ties to even\<close>

lemma roundHalfEven_of_int [simp]: "roundHalfEven (of_int n) = n"
  by (simp add: roundHalfEven_def)

lemma roundHalfEven_floor: "\<lfloor>m\<rfloor> \<le> roundHalfEven m \<and> roundHalfEven m \<le> \<lfloor>m\<rfloor> + 1"
  by (simp add: roundHalfEven_def Let_def)

lemma roundHalfEven_le:
  assumes "m \<le> of_int n"
  shows "roundHalfEven m \<le> n"
proof (cases "m = of_int n")
  case True
  then show ?thesis by simp
next
  case False
  then have "m < of_int n" using assms by simp
  then have "\<lfloor>m\<rfloor> < n" by (simp add: floor_less_iff)
  then show ?thesis using roundHalfEven_floor[of m] by linarith
qed

lemma roundHalfEven_ge:
  assumes "of_int n \<le> m"
  shows "n \<le> roundHalfEven m"
proof -
  have "n \<le> \<lfloor>m\<rfloor>" using assms by (simp add: le_floor_iff)
  then show ?thesis using roundHalfEven_floor[of m] by linarith
qed

lemma roundHalfEven_near:
  assumes "\<bar>m - of_int n\<bar> < 1 / 2"
  shows "roundHalfEven m = n"
proof (cases "of_int n \<le> m")
  case True
  then have f: "\<lfloor>m\<rfloor> = n" using assms by (simp add: floor_unique)
  then show ?thesis using assms True by (simp add: roundHalfEven_def Let_def)
next
  case False
  then have f: "\<lfloor>m\<rfloor> = n - 1" using assms by (intro floor_unique) (simp_all)
  then show ?thesis using assms False by (simp add: roundHalfEven_def Let_def)
qed

lemma roundHalfEven_mono:
  assumes "m \<le> m'"
  shows "roundHalfEven m \<le> roundHalfEven m'"
proof (cases "\<lfloor>m\<rfloor> = \<lfloor>m'\<rfloor>")
  case True
  have "m - of_int \<lfloor>m\<rfloor> \<le> m' - of_int \<lfloor>m'\<rfloor>" using assms True by simp
  then show ?thesis using True by (auto simp add: roundHalfEven_def Let_def)
next
  case False
  have "\<lfloor>m\<rfloor> \<le> \<lfloor>m'\<rfloor>" using assms by (rule floor_mono)
  then have "\<lfloor>m\<rfloor> + 1 \<le> \<lfloor>m'\<rfloor>" using False by simp
  then show ?thesis using roundHalfEven_floor[of m] roundHalfEven_floor[of m'] by linarith
qed

lemma roundHalfEven_nonneg: "0 \<le> m \<Longrightarrow> 0 \<le> roundHalfEven m"
  using roundHalfEven_ge[of 0 m] by simp

subsection \<open>Rounding to binary64\<close>

lemma quantum_pos [simp]: "0 < quantum a"
  by (simp add: quantum_def)

lemma quantum_nonneg [simp]: "0 \<le> quantum a"
  by (simp add: quantum_def less_imp_le)

lemma round64_unfold:
  "0 < a \<Longrightarrow> round64 s a =
     (if pow2 1024 \<le> of_int (roundHalfEven (a / quantum a)) * quantum a then Infinity s
      else Finite s (of_int (roundHalfEven (a / quantum a)) * quantum a))"
  by (simp add: round64_def quantum_def Let_def)

lemma pow2_as_multiple:
  assumes "e - 52 \<le> k"
  shows "pow2 k = of_int (2 ^ nat (k - e + 52)) * pow2 (e - 52)"
proof -
  have "pow2 k = pow2 (k - e + 52) * pow2 (e - 52)"
    by (simp add: pow2_add[symmetric])
  then show ?thesis using assms by (simp add: pow2_nat)
qed

lemma ilog2_le:
  assumes "0 < a" "a \<le> pow2 k"
  shows "ilog2 a \<le> k"
proof -
  have "pow2 (ilog2 a) \<le> pow2 k" using ilog2_bounds[OF assms(1)] assms(2) by linarith
  then show ?thesis by simp
qed

lemma ilog2_ge:
  assumes "pow2 k \<le> a"
  shows "k \<le> ilog2 a"
proof -
  have a: "0 < a" using assms pow2_pos[of k] by linarith
  have "pow2 k < pow2 (ilog2 a + 1)" using ilog2_bounds[OF a] assms by linarith
  then show ?thesis by simp
qed

lemma rounded_le_pow2:
  assumes a: "0 < a" and le: "a \<le> pow2 k" and k: "- 1074 \<le> k"
  shows "of_int (roundHalfEven (a / quantum a)) * quantum a \<le> pow2 k"
proof -
  define e where "e = max (ilog2 a) (- 1022)"
  have u: "quantum a = pow2 (e - 52)" by (simp add: quantum_def e_def)
  have "e - 52 \<le> k" using ilog2_le[OF a le] k by (simp add: e_def)
  note m = pow2_as_multiple[OF this]
  have "a / quantum a \<le> of_int (2 ^ nat (k - e + 52))"
    using le by (simp add: u m pos_divide_le_eq)
  then have "roundHalfEven (a / quantum a) \<le> 2 ^ nat (k - e + 52)"
    by (rule roundHalfEven_le)
  then have "(of_int (roundHalfEven (a / quantum a)) :: rat) \<le> of_int (2 ^ nat (k - e + 52))"
    by (simp only: of_int_le_iff)
  then have "of_int (roundHalfEven (a / quantum a)) * quantum a
      \<le> of_int (2 ^ nat (k - e + 52)) * quantum a"
    by (rule mult_right_mono) simp
  then show ?thesis by (simp only: m u)
qed

lemma rounded_ge_pow2:
  assumes ge: "pow2 k \<le> a" and k: "- 1074 \<le> k"
  shows "pow2 k \<le> of_int (roundHalfEven (a / quantum a)) * quantum a"
proof -
  have a: "0 < a" using ge pow2_pos[of k] by linarith
  define e where "e = max (ilog2 a) (- 1022)"
  have u: "quantum a = pow2 (e - 52)" by (simp add: quantum_def e_def)
  have ke: "k \<le> e" using ilog2_ge[OF ge] by (simp add: e_def)
  have big: "pow2 j \<le> a \<Longrightarrow> e - 52 \<le> j \<Longrightarrow>
      pow2 j \<le> of_int (roundHalfEven (a / quantum a)) * quantum a" for j
  proof -
    assume j: "pow2 j \<le> a" "e - 52 \<le> j"
    note m = pow2_as_multiple[OF j(2)]
    have "of_int (2 ^ nat (j - e + 52)) \<le> a / quantum a"
      using j(1) by (simp add: u m pos_le_divide_eq)
    then have "2 ^ nat (j - e + 52) \<le> roundHalfEven (a / quantum a)"
      by (rule roundHalfEven_ge)
    then have "(of_int (2 ^ nat (j - e + 52)) :: rat) \<le> of_int (roundHalfEven (a / quantum a))"
      by (simp only: of_int_le_iff)
    then have "of_int (2 ^ nat (j - e + 52)) * quantum a
        \<le> of_int (roundHalfEven (a / quantum a)) * quantum a"
      by (rule mult_right_mono) simp
    then show ?thesis by (simp only: m u)
  qed
  show ?thesis
  proof (cases "e - 52 \<le> k")
    case True
    then show ?thesis using big[OF ge] by simp
  next
    case False
    then have "e = ilog2 a" using k by (simp add: e_def max_def split: if_splits)
    then have "pow2 e \<le> a" using ilog2_bounds[OF a] by simp
    then have "pow2 e \<le> of_int (roundHalfEven (a / quantum a)) * quantum a"
      using big[of e] by simp
    moreover have "pow2 k \<le> pow2 e" using ke by simp
    ultimately show ?thesis by linarith
  qed
qed

lemma round64_le_pow2:
  assumes "0 \<le> a" "a \<le> pow2 k" "- 1074 \<le> k" "k \<le> 1023"
  shows "\<exists>r. round64 s a = Finite s r \<and> 0 \<le> r \<and> r \<le> pow2 k"
proof (cases "a = 0")
  case True
  then show ?thesis using pow2_pos[of k] by (simp add: round64_def less_imp_le)
next
  case False
  then have a: "0 < a" using assms(1) by simp
  let ?r = "of_int (roundHalfEven (a / quantum a)) * quantum a"
  have r: "?r \<le> pow2 k" using rounded_le_pow2[OF a assms(2,3)] .
  have "pow2 k < pow2 1024" using assms(4) by simp
  then have "\<not> pow2 1024 \<le> ?r" using r by linarith
  moreover have "0 \<le> ?r"
    using a by (intro mult_nonneg_nonneg) (simp_all add: roundHalfEven_nonneg less_imp_le)
  ultimately show ?thesis using r by (simp add: round64_unfold[OF a])
qed

lemma round64_ge_pow2:
  assumes "pow2 k \<le> a" "- 1074 \<le> k"
  shows "round64 s a = Infinity s \<or> (\<exists>r. round64 s a = Finite s r \<and> pow2 k \<le> r)"
proof -
  have a: "0 < a" using assms(1) pow2_pos[of k] by linarith
  show ?thesis using rounded_ge_pow2[OF assms] by (simp add: round64_unfold[OF a])
qed

lemma round64_grid:
  assumes a: "0 < a" and r: "round64 s a = Finite s' r"
  shows "\<exists>n e. r = of_int n * pow2 (e - 52) \<and> 0 \<le> n \<and> n \<le> 2 ^ 53 \<and> - 1022 \<le> e"
proof -
  define e where "e = max (ilog2 a) (- 1022)"
  have u: "quantum a = pow2 (e - 52)" by (simp add: quantum_def e_def)
  have "a < pow2 (ilog2 a + 1)" using ilog2_bounds[OF a] by simp
  also have "\<dots> \<le> pow2 (e + 1)" by (simp add: e_def)
  finally have "a \<le> pow2 (e + 1)" by simp
  moreover have "pow2 (e + 1) = of_int (2 ^ 53) * pow2 (e - 52)"
    using pow2_as_multiple[of e "e + 1"] by simp
  ultimately have "a / quantum a \<le> of_int (2 ^ 53)"
    by (simp add: u pos_divide_le_eq)
  then have "roundHalfEven (a / quantum a) \<le> 2 ^ 53" by (rule roundHalfEven_le)
  moreover have "0 \<le> roundHalfEven (a / quantum a)"
    using a by (simp add: roundHalfEven_nonneg less_imp_le)
  moreover have "r = of_int (roundHalfEven (a / quantum a)) * pow2 (e - 52)"
    using r by (simp add: round64_unfold[OF a] u split: if_splits)
  moreover have "- 1022 \<le> e" by (simp add: e_def)
  ultimately show ?thesis by blast
qed

lemma round64_exact:
  assumes n: "0 \<le> n" "n < 2 ^ 53" and k: "- 1074 \<le> k" "k \<le> 971"
  shows "round64 s (of_int n * pow2 k) = Finite s (of_int n * pow2 k)"
proof (cases "n = 0")
  case True
  then show ?thesis by (simp add: round64_def)
next
  case False
  define a where "a = of_int n * pow2 k"
  have npos: "0 < n" using False n(1) by simp
  then have a: "0 < a" by (simp add: a_def)
  define e where "e = max (ilog2 a) (- 1022)"
  have u: "quantum a = pow2 (e - 52)" by (simp add: quantum_def e_def)
  have "(of_int n :: rat) < of_int (2 ^ 53)" using n(2) by (simp only: of_int_less_iff)
  then have "a < of_int (2 ^ 53) * pow2 k" unfolding a_def by (simp add: mult_strict_right_mono)
  also have "\<dots> = pow2 (k + 53)" by (simp add: pow2_add pow2_nat)
  finally have lt: "a < pow2 (k + 53)" .
  have "pow2 (ilog2 a) < pow2 (k + 53)" using ilog2_bounds[OF a] lt by linarith
  then have "ilog2 a < k + 53" by simp
  then have j: "e - 52 \<le> k" using k by (simp add: e_def)
  have ak: "a = of_int (n * 2 ^ nat (k - e + 52)) * pow2 (e - 52)"
    by (simp add: a_def pow2_as_multiple[OF j])
  have "pow2 (e - 52) \<noteq> 0" using pow2_pos[of "e - 52"] by linarith
  then have "a / pow2 (e - 52) = of_int (n * 2 ^ nat (k - e + 52))"
    by (subst ak) simp
  then have "roundHalfEven (a / quantum a) = n * 2 ^ nat (k - e + 52)"
    unfolding u by (simp only: roundHalfEven_of_int)
  then have r: "of_int (roundHalfEven (a / quantum a)) * quantum a = a"
    unfolding u using ak by simp
  have "pow2 (k + 53) \<le> pow2 1024" using k by simp
  then have "\<not> pow2 1024 \<le> a" using lt by linarith
  then show ?thesis using r by (simp add: round64_unfold[OF a] a_def[symmetric])
qed

lemma round64_near:
  assumes b: "pow2 e \<le> a" "a < pow2 (e + 1)" and e: "- 1022 \<le> e" "e \<le> 1022"
    and n: "\<bar>a / pow2 (e - 52) - of_int n\<bar> < 1 / 2"
  shows "round64 s a = Finite s (of_int n * pow2 (e - 52))"
proof -
  have a: "0 < a" using b(1) pow2_pos[of e] by linarith
  have u: "quantum a = pow2 (e - 52)" using ilog2_unique[OF b] e by (simp add: quantum_def)
  have rn: "roundHalfEven (a / pow2 (e - 52)) = n" using n by (rule roundHalfEven_near)
  have "of_int (roundHalfEven (a / quantum a)) * quantum a \<le> pow2 (e + 1)"
    using rounded_le_pow2[OF a, of "e + 1"] b(2) e by simp
  moreover have "pow2 (e + 1) < pow2 1024" using e by simp
  ultimately have "\<not> pow2 1024 \<le> of_int (roundHalfEven (a / quantum a)) * quantum a"
    by linarith
  then show ?thesis by (simp add: round64_unfold[OF a] rn u)
qed

lemma ilog2_mono:
  assumes "0 < a" "a \<le> b"
  shows "ilog2 a \<le> ilog2 b"
proof -
  have "pow2 (ilog2 a) \<le> b" using ilog2_bounds[OF assms(1)] assms(2) by linarith
  then show ?thesis by (rule ilog2_ge)
qed

lemma rounded_mono:
  assumes a: "0 < a" and ab: "a \<le> b"
  shows "of_int (roundHalfEven (a / quantum a)) * quantum a
           \<le> of_int (roundHalfEven (b / quantum b)) * quantum b"
proof -
  have b: "0 < b" using a ab by linarith
  define ea where "ea = max (ilog2 a) (- 1022)"
  define eb where "eb = max (ilog2 b) (- 1022)"
  have ua: "quantum a = pow2 (ea - 52)" by (simp add: quantum_def ea_def)
  have ub: "quantum b = pow2 (eb - 52)" by (simp add: quantum_def eb_def)
  have le: "ea \<le> eb" using ilog2_mono[OF a ab] by (simp add: ea_def eb_def)
  show ?thesis
  proof (cases "ea = eb")
    case True
    then have q: "quantum a = quantum b" by (simp add: ua ub)
    have "a / quantum b \<le> b / quantum b" using ab by (simp add: divide_right_mono)
    then have "roundHalfEven (a / quantum b) \<le> roundHalfEven (b / quantum b)"
      by (rule roundHalfEven_mono)
    then have "(of_int (roundHalfEven (a / quantum b)) :: rat)
        \<le> of_int (roundHalfEven (b / quantum b))"
      by (simp only: of_int_le_iff)
    then show ?thesis unfolding q by (rule mult_right_mono) simp
  next
    case False
    then have lt: "ea + 1 \<le> eb" using le by simp
    then have "eb = ilog2 b" by (simp add: eb_def ea_def max_def split: if_splits)
    then have "pow2 eb \<le> b" using ilog2_bounds[OF b] by simp
    then have lo: "pow2 eb \<le> of_int (roundHalfEven (b / quantum b)) * quantum b"
      using rounded_ge_pow2[of eb b] lt by (simp add: eb_def)
    have "a < pow2 (ilog2 a + 1)" using ilog2_bounds[OF a] by simp
    also have "\<dots> \<le> pow2 (ea + 1)" by (simp add: ea_def)
    finally have "a \<le> pow2 (ea + 1)" by simp
    then have "of_int (roundHalfEven (a / quantum a)) * quantum a \<le> pow2 (ea + 1)"
      using rounded_le_pow2[OF a, of "ea + 1"] by (simp add: ea_def)
    also have "\<dots> \<le> pow2 eb" using lt by simp
    finally show ?thesis using lo by linarith
  qed
qed

lemma round64_shape:
  assumes "0 \<le> a"
  shows "round64 s a = Infinity s \<or> (\<exists>r. round64 s a = Finite s r \<and> 0 \<le> r)"
proof (cases "a = 0")
  case True
  then show ?thesis by (simp add: round64_def)
next
  case False
  then have a: "0 < a" using assms by simp
  have "0 \<le> of_int (roundHalfEven (a / quantum a)) * quantum a"
    using a by (intro mult_nonneg_nonneg) (simp_all add: roundHalfEven_nonneg less_imp_le)
  then show ?thesis by (simp add: round64_unfold[OF a])
qed

lemma round64_mono:
  assumes a: "0 \<le> a" and ab: "a \<le> b"
  shows "fge (round64 False b) (round64 False a)"
proof (cases "a = 0")
  case True
  have "0 \<le> b" using a ab by linarith
  from round64_shape[OF this, of False] show ?thesis
    using True by (auto simp add: round64_def signed_def)
next
  case False
  then have a': "0 < a" using a by simp
  then have b': "0 < b" using ab by linarith
  have ra: "0 \<le> of_int (roundHalfEven (a / quantum a)) * quantum a"
    using a' by (intro mult_nonneg_nonneg) (simp_all add: roundHalfEven_nonneg less_imp_le)
  show ?thesis
    using rounded_mono[OF a' ab] ra
    by (simp add: round64_unfold[OF a'] round64_unfold[OF b'] signed_def)
qed

lemma f64_of_int_nat: "f64_of_int (int c) = round64 False (of_nat c)"
  by (simp add: f64_of_int_def)

lemma fdiv_counts:
  assumes "c \<le> n"
  shows "fdiv (f64_of_int (int c)) (f64_of_int (int n)) = NaN \<or>
         (\<exists>r. fdiv (f64_of_int (int c)) (f64_of_int (int n)) = Finite False r \<and> 0 \<le> r \<and> r \<le> 1)"
proof -
  have cn: "(of_nat c :: rat) \<le> of_nat n" using assms by simp
  note m = round64_mono[OF _ cn]
  consider (ii) "round64 False (of_nat c) = Infinity False" "round64 False (of_nat n) = Infinity False"
    | (i_f) ra where "round64 False (of_nat c) = Infinity False" "round64 False (of_nat n) = Finite False ra"
    | (f_i) ra where "round64 False (of_nat c) = Finite False ra" "0 \<le> ra" "round64 False (of_nat n) = Infinity False"
    | (ff) ra rb where "round64 False (of_nat c) = Finite False ra" "0 \<le> ra"
        "round64 False (of_nat n) = Finite False rb" "0 \<le> rb"
    using round64_shape[of "of_nat c" False] round64_shape[of "of_nat n" False] by auto
  then show ?thesis
  proof cases
    case ii
    then show ?thesis by (simp add: f64_of_int_nat)
  next
    case i_f
    then show ?thesis using m by simp
  next
    case f_i
    then show ?thesis by (simp add: f64_of_int_nat)
  next
    case ff
    have le: "ra \<le> rb" using m ff by (simp add: signed_def)
    show ?thesis
    proof (cases "rb = 0")
      case True
      then show ?thesis using le ff by (simp add: f64_of_int_nat)
    next
      case False
      then have "0 < rb" using ff(4) by simp
      then have "ra / rb \<le> pow2 0" "0 \<le> ra / rb" using le ff(2) by simp_all
      from round64_le_pow2[OF this(2) this(1), of False] show ?thesis
        using False ff by (auto simp add: f64_of_int_nat)
    qed
  qed
qed

subsection \<open>The numbers next to one\<close>

lemma onGrid_0 [simp]: "onGrid 0"
  unfolding onGrid_def by (rule exI[of _ 0], rule exI[of _ 0]) simp

lemma round64_onGrid:
  assumes "0 \<le> a" "round64 s a = Finite t c"
  shows "onGrid c"
proof (cases "a = 0")
  case True
  then show ?thesis using assms(2) by (simp add: round64_def)
next
  case False
  then have "0 < a" using assms(1) by simp
  from round64_grid[OF this assms(2)] show ?thesis by (simp add: onGrid_def)
qed

lemma fdiv_onGrid:
  assumes "fdiv x y = Finite t c"
  shows "onGrid c"
proof (cases x)
  case NaN
  then show ?thesis using assms by simp
next
  case (Infinity s)
  then show ?thesis using assms by (cases y) simp_all
next
  case (Finite s a)
  show ?thesis
  proof (cases y)
    case NaN
    then show ?thesis using assms Finite by simp
  next
    case (Infinity u)
    then show ?thesis using assms Finite by simp
  next
    case (Finite u b)
    then have "b \<noteq> 0" "round64 (s \<noteq> u) (\<bar>a\<bar> / \<bar>b\<bar>) = Finite t c"
      using assms \<open>x = Finite s a\<close> by (auto split: if_splits)
    then show ?thesis using round64_onGrid[of "\<bar>a\<bar> / \<bar>b\<bar>"] by simp
  qed
qed

lemma grid_away_from_one:
  assumes g: "onGrid c" and ne: "c \<noteq> 1"
  shows "pow2 (- 53) \<le> \<bar>1 - c\<bar>"
proof -
  from g obtain n e where c: "c = of_int n * pow2 (e - 52)" "0 \<le> n" "n \<le> 2 ^ 53" "- 1022 \<le> e"
    unfolding onGrid_def by blast
  have half: "pow2 (- 53) \<le> 1 / 2" "pow2 (- 53) \<le> 1" by (simp_all add: pow2_def)
  consider "e \<le> - 2" | "- 1 \<le> e" "e \<le> 52" | "52 < e" by linarith
  then show ?thesis
  proof cases
    case 1
    have "c \<le> of_int (2 ^ 53) * pow2 (e - 52)"
      unfolding c(1) using c(3) by (intro mult_right_mono) (simp_all add: less_imp_le)
    also have "\<dots> = pow2 (e + 1)" using pow2_as_multiple[of e "e + 1"] by simp
    also have "\<dots> \<le> pow2 (- 1)" using 1 by simp
    also have "\<dots> = 1 / 2" by (simp add: pow2_def)
    finally show ?thesis using half by linarith
  next
    case 2
    define N :: int where "N = 2 ^ nat (52 - e)"
    have one: "1 = of_int N * pow2 (e - 52)"
      using pow2_as_multiple[of e 0] 2 by (simp add: N_def)
    have "N \<noteq> n" using ne c(1) one by auto
    then have "1 \<le> \<bar>N - n\<bar>" by simp
    then have "(1::rat) \<le> \<bar>of_int (N - n)\<bar>" by (metis of_int_abs of_int_1_le_iff)
    have "1 - c = of_int (N - n) * pow2 (e - 52)"
      by (subst one) (simp add: c(1) algebra_simps)
    then have eq: "\<bar>1 - c\<bar> = \<bar>of_int (N - n)\<bar> * pow2 (e - 52)"
      by (simp add: abs_mult less_imp_le)
    have "pow2 (- 53) \<le> pow2 (e - 52)" using 2 by simp
    also have "\<dots> = 1 * pow2 (e - 52)" by simp
    also have "\<dots> \<le> \<bar>of_int (N - n)\<bar> * pow2 (e - 52)"
      using \<open>(1::rat) \<le> \<bar>of_int (N - n)\<bar>\<close> by (intro mult_right_mono) (simp_all add: less_imp_le)
    finally show ?thesis unfolding eq .
  next
    case 3
    define m :: int where "m = n * 2 ^ nat (e - 52)"
    have "pow2 (e - 52) = of_int (2 ^ nat (e - 52))" using 3 by (simp add: pow2_nat)
    then have cm: "c = of_int m" by (simp add: c(1) m_def)
    then have "m \<noteq> 1" using ne by auto
    then have "1 \<le> \<bar>1 - m\<bar>" by simp
    then have "(1::rat) \<le> \<bar>of_int (1 - m)\<bar>" by (metis of_int_abs of_int_1_le_iff)
    then show ?thesis using half by (simp add: cm)
  qed
qed

lemma onGrid_nonneg: "onGrid c \<Longrightarrow> 0 \<le> c"
  by (auto simp add: onGrid_def less_imp_le)

lemma signed_False [simp]: "signed False a = a"
  by (simp add: signed_def)

lemma fsub_one_Finite:
  "fsub f64_one (Finite t c) =
     (if 1 - signed t \<bar>c\<bar> = 0 then Finite False 0
      else round64 (1 - signed t \<bar>c\<bar> < 0) \<bar>1 - signed t \<bar>c\<bar>\<bar>)"
  by (simp add: f64_one_def Let_def)

lemma fsub_one_special [simp]:
  "fsub f64_one NaN = NaN" "fsub f64_one (Infinity u) = Infinity (\<not> u)"
  by (simp_all add: f64_one_def)

lemma fsub_one_unit:
  assumes "fge cs (Finite False 0)" "fge f64_one cs" "\<not> feq cs f64_one"
  shows "\<exists>r. fsub f64_one cs = Finite False r \<and> 0 \<le> r \<and> r \<le> 1"
proof -
  obtain t c where cs: "cs = Finite t c"
    using assms(1,2) by (cases cs) (auto simp add: f64_one_def)
  define v where "v = signed t \<bar>c\<bar>"
  have v: "0 \<le> v" "v \<le> 1" "v \<noteq> 1"
    using assms by (simp_all add: cs v_def f64_one_def signed_def)
  then have d: "0 < 1 - v" "1 - v \<le> pow2 0" by simp_all
  have "fsub f64_one cs = round64 False (1 - v)"
    using d(1) unfolding cs fsub_one_Finite v_def[symmetric] by simp
  moreover from round64_le_pow2[OF less_imp_le[OF d(1)] d(2), of False]
  obtain r where "round64 False (1 - v) = Finite False r" "0 \<le> r" "r \<le> 1" by auto
  ultimately show ?thesis by simp
qed

lemma fsub_one_away:
  assumes g: "onGrid q" and ne: "\<not> feq (Finite u q) f64_one"
  shows "(\<exists>s. fsub f64_one (Finite u q) = Infinity s)
     \<or> (\<exists>s r. fsub f64_one (Finite u q) = Finite s r \<and> pow2 (- 53) \<le> r)"
proof -
  have q: "0 \<le> q" using g by (rule onGrid_nonneg)
  define w where "w = signed u \<bar>q\<bar>"
  have w: "w \<noteq> 1" using ne by (simp add: f64_one_def signed_def w_def)
  have "pow2 (- 53) \<le> \<bar>1 - w\<bar>"
  proof (cases u)
    case True
    then have "w \<le> 0" using q by (simp add: w_def signed_def)
    moreover have "pow2 (- 53) \<le> 1" by (simp add: pow2_def)
    ultimately show ?thesis by linarith
  next
    case False
    then have "w = q" using q by (simp add: w_def signed_def)
    then show ?thesis using grid_away_from_one[OF g] w by simp
  qed
  moreover have "1 - w \<noteq> 0" using w by simp
  then have "fsub f64_one (Finite u q) = round64 (1 - w < 0) \<bar>1 - w\<bar>"
    unfolding fsub_one_Finite w_def[symmetric] by simp
  ultimately show ?thesis
    using round64_ge_pow2[of "- 53" "\<bar>1 - w\<bar>" "1 - w < 0"] by auto
qed

lemma conviction_division_finite:
  assumes cs: "fge cs (Finite False 0)" "fge f64_one cs" "\<not> feq cs f64_one"
    and conf: "\<not> feq (fdiv x y) f64_one"
  shows "fdiv (fsub f64_one cs) (fsub f64_one (fdiv x y)) \<noteq> Infinity False"
proof -
  from fsub_one_unit[OF cs] obtain r where
    r: "fsub f64_one cs = Finite False r" "0 \<le> r" "r \<le> 1" by blast
  show ?thesis
  proof (cases "fdiv x y")
    case NaN
    then show ?thesis by (simp add: r)
  next
    case (Infinity u)
    then show ?thesis by (simp add: r)
  next
    case (Finite u q)
    have g: "onGrid q" using fdiv_onGrid[OF Finite] .
    from fsub_one_away[OF g conf[unfolded Finite]]
    consider s where "fsub f64_one (Finite u q) = Infinity s"
      | s r' where "fsub f64_one (Finite u q) = Finite s r'" "pow2 (- 53) \<le> r'"
      by blast
    then show ?thesis
    proof cases
      case 1
      then show ?thesis by (simp add: Finite r)
    next
      case 2
      have p: "0 < pow2 (- 53)" by simp
      then have r': "0 < r'" using 2(2) by linarith
      have "r / r' \<le> 1 / pow2 (- 53)"
        using r(2,3) 2(2) p r' by (intro frac_le) simp_all
      also have "\<dots> = pow2 53" by (simp add: pow2_def)
      finally have le: "r / r' \<le> pow2 53" .
      have "0 \<le> r / r'" using r(2) r' by simp
      from round64_le_pow2[OF this le, of "False \<noteq> s"]
      obtain z where "round64 (False \<noteq> s) (r / r') = Finite (False \<noteq> s) z" by auto
      then show ?thesis using r' r(2) by (simp add: Finite r 2(1))
    qed
  qed
qed

lemma conviction_inf_iff:
  assumes "fge cs (Finite False 0)" "fge f64_one cs"
  shows "conviction cs (fdiv x y) = f64_inf \<longleftrightarrow> feq cs f64_one \<or> feq (fdiv x y) f64_one"
  using conviction_division_finite[OF assms, of x y]
  by (auto simp add: conviction_def f64_inf_def)

section \<open>Facts about the helpers\<close>

lemma containsItem_iff [simp]: "containsItem transaction item \<longleftrightarrow> item \<in> set transaction"
  by (induction transaction) auto

lemma isSubset_iff [simp]: "isSubset items transaction \<longleftrightarrow> set items \<subseteq> set transaction"
  by (induction items) auto

lemma slicesEqual_iff [simp]: "slicesEqual a b \<longleftrightarrow> a = b"
proof (cases "length a = length b")
  case True
  then show ?thesis
    by (auto simp add: slicesEqual_def list_all_iff intro: nth_equalityI)
next
  case False
  then show ?thesis by (auto simp add: slicesEqual_def)
qed

lemma fold_upd_True:
  "fold (\<lambda>item m. m(item \<mapsto> True)) b m0 x =
     (if x \<in> set b then Some True else m0 x)"
  by (induction b arbitrary: m0) auto

lemma difference_eq: "difference a b = filter (\<lambda>item. item \<notin> set b) a"
  by (simp add: difference_def fold_upd_True)

lemma canJoinLoop_eq:
  "n \<le> length xs \<Longrightarrow> n \<le> length ys \<Longrightarrow> canJoinLoop n xs ys = Inr (take n xs = take n ys)"
  by (induction n xs ys rule: canJoinLoop.induct) simp_all

lemma isValid_iff:
  "isValid itemsets candidate k \<longleftrightarrow>
     (\<forall>l<k. removeAt l candidate \<in> Items ` set itemsets)"
  by (simp add: isValid_def list_all_iff list_ex_iff image_iff) (metis atLeastLessThan_iff le0)

text \<open>The candidate before sorting, when \<^verbatim>\<open>itemsets[i]\<close> and \<^verbatim>\<open>itemsets[j]\<close> hold \<open>k - 1\<close> items.\<close>

lemma candidate_raw:
  assumes "length A = Suc n" "length B = Suc n"
  shows "(take (Suc (Suc n)) (A @ replicate (Suc (Suc n)) []))[Suc n := B ! n] = A @ [last B]"
proof -
  have "take (Suc (Suc n)) (A @ replicate (Suc (Suc n)) []) = A @ [[]]"
    using assms by simp
  moreover have "B \<noteq> []" using assms by auto
  then have "B ! n = last B" using assms by (simp add: last_conv_nth)
  ultimately show ?thesis using assms by (simp add: list_update_append)
qed

section \<open>Facts about candidate generation\<close>

lemma sort_two_last:
  fixes y z :: "'a :: linorder"
  assumes "sorted_wrt (<) (p @ [y])" "sorted_wrt (<) (p @ [z])" "y \<noteq> z"
  shows "sort (p @ [y] @ [z]) = p @ [min y z, max y z]"
    and "sorted_wrt (<) (p @ [min y z, max y z])"
proof -
  show s: "sorted_wrt (<) (p @ [min y z, max y z])"
    using assms by (auto simp add: sorted_wrt_append min_def max_def)
  have "sorted (p @ [min y z, max y z])" "distinct (p @ [min y z, max y z])"
    using s strict_sorted_iff by blast+
  moreover have "distinct (p @ [y] @ [z])"
    using assms by (auto simp add: sorted_wrt_append strict_sorted_iff)
  moreover have "set (p @ [min y z, max y z]) = set (p @ [y] @ [z])"
    by (auto simp add: min_def max_def)
  ultimately show "sort (p @ [y] @ [z]) = p @ [min y z, max y z]"
    by (intro sorted_distinct_set_unique) simp_all
qed

lemma take_butlast_snoc:
  assumes "length A = Suc n"
  shows "A = take n A @ [last A]"
proof -
  have "A \<noteq> []" using assms by auto
  then have "A = butlast A @ [last A]" by simp
  moreover have "butlast A = take n A" using assms by (simp add: butlast_conv_take)
  ultimately show ?thesis by simp
qed

lemma joinPair_lengths:
  assumes k: "k = int n + 2"
    and la: "length (Items a) = Suc n" and lb: "length (Items b) = Suc n"
  shows "joinPair k L a b = Inr None \<or>
         (\<exists>c. joinPair k L a b = Inr (Some c) \<and> length (Items c) = n + 2 \<and> Length c = k)"
proof -
  have nk: "nat k = Suc (Suc n)" "nat (k - 1) = Suc n" "nat (k - 2) = n" using k by simp_all
  have cj: "canJoinLoop n (Items a) (Items b) = Inr (take n (Items a) = take n (Items b))"
    using la lb by (simp add: canJoinLoop_eq)
  show ?thesis
    using k la lb by (auto simp add: joinPair_def cj nk Let_def)
qed

lemma joinPair_Some:
  assumes k: "k = int n + 2"
    and la: "length (Items a) = Suc n" and lb: "length (Items b) = Suc n"
    and sa: "sorted_wrt (<) (Items a)" and sb: "sorted_wrt (<) (Items b)"
    and ne: "Items a \<noteq> Items b"
    and j: "joinPair k L a b = Inr (Some c)"
  shows "\<exists>p y z. Items c = p @ [y, z] \<and> length p = n \<and> sorted_wrt (<) (p @ [y, z])
           \<and> {Items a, Items b} = {p @ [y], p @ [z]} \<and> Length c = k
           \<and> (0 < n \<longrightarrow> (\<forall>l<n + 2. removeAt l (Items c) \<in> Items ` set L))"
proof -
  have nk: "nat k = Suc (Suc n)" "nat (k - 1) = Suc n" "nat (k - 2) = n" using k by simp_all
  have cj: "canJoinLoop n (Items a) (Items b) = Inr (take n (Items a) = take n (Items b))"
    using la lb by (simp add: canJoinLoop_eq)
  define p where "p = take n (Items a)"
  define y where "y = last (Items a)"
  define z where "z = last (Items b)"
  have pre: "take n (Items a) = take n (Items b)"
  proof (cases "0 < n")
    case True
    then show ?thesis using j k by (auto simp add: joinPair_def cj split: if_splits)
  next
    case False
    then show ?thesis by simp
  qed
  have A: "Items a = p @ [y]" unfolding p_def y_def by (rule take_butlast_snoc[OF la])
  have B: "Items b = p @ [z]" unfolding p_def z_def pre by (rule take_butlast_snoc[OF lb])
  have yz: "y \<noteq> z" using ne A B by simp
  have raw: "(take (Suc (Suc n)) (Items a @ replicate (Suc (Suc n)) []))[Suc n := Items b ! n]
               = p @ [y] @ [z]"
    using candidate_raw[OF la lb] by (simp add: A z_def)
  note st = sort_two_last[OF sa[unfolded A] sb[unfolded B] yz]
  have c: "Items c = p @ [min y z, max y z]" "Length c = k"
    and v: "0 < n \<longrightarrow> isValid L (p @ [min y z, max y z]) (n + 2)"
    using j k la lb unfolding joinPair_def nk cj raw st(1)
    by (auto simp add: Let_def pre split: if_splits)
  have "{Items a, Items b} = {p @ [min y z], p @ [max y z]}"
    unfolding A B using yz by (auto simp add: min_def max_def)
  moreover have "length p = n" using la by (simp add: p_def)
  ultimately show ?thesis using c v st(2) by (auto simp add: isValid_iff)
qed

lemma parents_snoc2: "length p = n \<Longrightarrow> parents n (p @ [y, z]) = {p @ [z], p @ [y]}"
  by (simp add: parents_def removeAt_def)

lemma joinPair_parents:
  assumes "k = int n + 2" "length (Items a) = Suc n" "length (Items b) = Suc n"
    "sorted_wrt (<) (Items a)" "sorted_wrt (<) (Items b)" "Items a \<noteq> Items b"
    "joinPair k L a b = Inr (Some c)"
  shows "{Items a, Items b} = parents n (Items c)"
    and "sorted_wrt (<) (Items c)" and "length (Items c) = n + 2" and "Length c = k"
    and "0 < n \<Longrightarrow> l < n + 2 \<Longrightarrow> removeAt l (Items c) \<in> Items ` set L"
proof -
  from joinPair_Some[OF assms] obtain p y z where
    c: "Items c = p @ [y, z]" "length p = n" "sorted_wrt (<) (p @ [y, z])"
      "{Items a, Items b} = {p @ [y], p @ [z]}" "Length c = k"
      "0 < n \<longrightarrow> (\<forall>l<n + 2. removeAt l (Items c) \<in> Items ` set L)"
    by blast
  show "{Items a, Items b} = parents n (Items c)"
    using c(4) by (auto simp add: c(1) parents_snoc2[OF c(2)])
  show "sorted_wrt (<) (Items c)" using c by simp
  show "length (Items c) = n + 2" using c by simp
  show "Length c = k" using c by simp
  show "0 < n \<Longrightarrow> l < n + 2 \<Longrightarrow> removeAt l (Items c) \<in> Items ` set L" using c(6) by simp
qed

lemma joinWithRest_lengths:
  assumes "k = int n + 2" "length (Items a) = Suc n" "\<forall>b\<in>set bs. length (Items b) = Suc n"
  shows "\<exists>cs. joinWithRest k L a bs = Inr cs
            \<and> (\<forall>c\<in>set cs. length (Items c) = n + 2 \<and> Length c = k)"
  using assms(3)
proof (induction bs)
  case Nil
  then show ?case by simp
next
  case (Cons b bs)
  then obtain cs where cs: "joinWithRest k L a bs = Inr cs"
    "\<forall>c\<in>set cs. length (Items c) = n + 2 \<and> Length c = k" by auto
  have "length (Items b) = Suc n" using Cons.prems by simp
  from joinPair_lengths[OF assms(1,2) this, of L] show ?case
    using cs by auto
qed

lemma joinAll_lengths:
  assumes "k = int n + 2" "\<forall>a\<in>set xs. length (Items a) = Suc n"
  shows "\<exists>cs. joinAll k L xs = Inr cs
            \<and> (\<forall>c\<in>set cs. length (Items c) = n + 2 \<and> Length c = k)"
  using assms(2)
proof (induction xs)
  case Nil
  then show ?case by simp
next
  case (Cons a xs)
  then obtain ds where ds: "joinAll k L xs = Inr ds"
    "\<forall>c\<in>set ds. length (Items c) = n + 2 \<and> Length c = k" by auto
  have "length (Items a) = Suc n" "\<forall>b\<in>set xs. length (Items b) = Suc n"
    using Cons.prems by simp_all
  from joinWithRest_lengths[OF assms(1) this, of L] obtain cs where
    "joinWithRest k L a xs = Inr cs" "\<forall>c\<in>set cs. length (Items c) = n + 2 \<and> Length c = k"
    by blast
  then show ?case using ds by auto
qed

lemma joinWithRest_mem:
  "joinWithRest k L a bs = Inr cs \<Longrightarrow> c \<in> set cs
     \<Longrightarrow> \<exists>b\<in>set bs. joinPair k L a b = Inr (Some c)"
proof (induction bs arbitrary: cs)
  case Nil
  then show ?case by simp
next
  case (Cons b bs)
  then show ?case
    by (auto split: sum.splits option.splits)
qed

lemma levelOk_Cons:
  "levelOk n (a # xs) \<longleftrightarrow>
     length (Items a) = n \<and> sorted_wrt (<) (Items a) \<and> Items a \<notin> Items ` set xs \<and> levelOk n xs"
  by (auto simp add: levelOk_def)

lemma levelOk_mem:
  "levelOk n xs \<Longrightarrow> a \<in> set xs \<Longrightarrow> length (Items a) = n \<and> sorted_wrt (<) (Items a)"
  by (simp add: levelOk_def list_all_iff)

lemma joinWithRest_parents:
  assumes k: "k = int n + 2" and ok: "levelOk (Suc n) (a # bs)"
    and j: "joinWithRest k L a bs = Inr cs" and c: "c \<in> set cs"
  shows "\<exists>b\<in>set bs. parents n (Items c) = {Items a, Items b}"
proof -
  from joinWithRest_mem[OF j c] obtain b where b: "b \<in> set bs" "joinPair k L a b = Inr (Some c)"
    by blast
  have "length (Items a) = Suc n" "sorted_wrt (<) (Items a)" "Items a \<noteq> Items b"
    "length (Items b) = Suc n" "sorted_wrt (<) (Items b)"
    using ok b(1) by (auto simp add: levelOk_Cons dest: levelOk_mem)
  from joinPair_parents(1)[OF k this(1,4,2,5,3) b(2)] show ?thesis using b(1) by auto
qed

lemma joinWithRest_distinct:
  assumes k: "k = int n + 2"
  shows "levelOk (Suc n) (a # bs) \<Longrightarrow> joinWithRest k L a bs = Inr cs
           \<Longrightarrow> distinct (map Items cs)"
proof (induction bs arbitrary: cs)
  case Nil
  then show ?case by simp
next
  case (Cons b bs)
  have ok': "levelOk (Suc n) (a # bs)" using Cons.prems(1) by (auto simp add: levelOk_Cons)
  obtain r where r: "joinPair k L a b = Inr r"
    using Cons.prems(2) by (auto split: sum.splits)
  obtain cs' where cs': "joinWithRest k L a bs = Inr cs'"
    using Cons.prems(2) by (auto split: sum.splits)
  have d: "distinct (map Items cs')" using Cons.IH[OF ok' cs'] .
  show ?case
  proof (cases r)
    case None
    then show ?thesis using Cons.prems(2) r cs' d by simp
  next
    case (Some x)
    have cs: "cs = x # cs'" using Cons.prems(2) r cs' Some by simp
    have ab: "length (Items a) = Suc n" "length (Items b) = Suc n" "sorted_wrt (<) (Items a)"
      "sorted_wrt (<) (Items b)" "Items a \<noteq> Items b" "Items b \<notin> Items ` set bs"
      using Cons.prems(1) by (auto simp add: levelOk_Cons)
    have px: "{Items a, Items b} = parents n (Items x)"
      using joinPair_parents(1)[OF k ab(1-5)] r Some by simp
    have "Items x \<notin> Items ` set cs'"
    proof
      assume "Items x \<in> Items ` set cs'"
      then obtain c' where c': "c' \<in> set cs'" "Items c' = Items x" by auto
      from joinWithRest_parents[OF k ok' cs' c'(1)] obtain b' where
        b': "b' \<in> set bs" "parents n (Items c') = {Items a, Items b'}" by blast
      have "{Items a, Items b} = {Items a, Items b'}" using px b'(2) c'(2) by simp
      then have "Items b = Items b'" using ab(5) by (auto simp add: doubleton_eq_iff)
      then show False using ab(6) b'(1) by auto
    qed
    then show ?thesis using cs d by simp
  qed
qed

lemma joinAll_sound:
  assumes k: "k = int n + 2"
  shows "levelOk (Suc n) xs \<Longrightarrow> joinAll k L xs = Inr cs \<Longrightarrow> c \<in> set cs
           \<Longrightarrow> \<exists>a\<in>set xs. \<exists>b\<in>set xs. Items a \<noteq> Items b \<and> joinPair k L a b = Inr (Some c)"
proof (induction xs arbitrary: cs)
  case Nil
  then show ?case by simp
next
  case (Cons a xs)
  obtain cs1 cs2 where s: "joinWithRest k L a xs = Inr cs1" "joinAll k L xs = Inr cs2"
    "cs = cs1 @ cs2"
    using Cons.prems(2) by (auto split: sum.splits)
  have ok': "levelOk (Suc n) xs" using Cons.prems(1) by (simp add: levelOk_Cons)
  consider "c \<in> set cs1" | "c \<in> set cs2" using Cons.prems(3) s(3) by auto
  then show ?case
  proof cases
    case 1
    from joinWithRest_mem[OF s(1) 1] obtain b where "b \<in> set xs" "joinPair k L a b = Inr (Some c)"
      by blast
    moreover have "Items a \<noteq> Items b"
      using Cons.prems(1) \<open>b \<in> set xs\<close> by (auto simp add: levelOk_Cons)
    ultimately show ?thesis by auto
  next
    case 2
    from Cons.IH[OF ok' s(2) 2] show ?thesis by auto
  qed
qed

lemma joinAll_candidate:
  assumes k: "k = int n + 2" and ok: "levelOk (Suc n) xs"
    and j: "joinAll k L xs = Inr cs" and c: "c \<in> set cs"
  shows "sorted_wrt (<) (Items c)" and "length (Items c) = n + 2" and "Length c = k"
    and "parents n (Items c) \<subseteq> Items ` set xs"
    and "set xs \<subseteq> set L \<Longrightarrow> l < n + 2 \<Longrightarrow> removeAt l (Items c) \<in> Items ` set L"
proof -
  from joinAll_sound[OF k ok j c] obtain a b where ab: "a \<in> set xs" "b \<in> set xs"
    "Items a \<noteq> Items b" "joinPair k L a b = Inr (Some c)" by blast
  have w: "length (Items a) = Suc n" "length (Items b) = Suc n"
    "sorted_wrt (<) (Items a)" "sorted_wrt (<) (Items b)"
    using levelOk_mem[OF ok ab(1)] levelOk_mem[OF ok ab(2)] by simp_all
  note p = joinPair_parents[OF k w ab(3,4)]
  show "sorted_wrt (<) (Items c)" "length (Items c) = n + 2" "Length c = k" using p by simp_all
  show ps: "parents n (Items c) \<subseteq> Items ` set xs" using p(1) ab(1,2) by auto
  show "removeAt l (Items c) \<in> Items ` set L" if sub: "set xs \<subseteq> set L" and l: "l < n + 2"
  proof (cases "0 < n")
    case True
    then show ?thesis using p(5) l by simp
  next
    case False
    then have "l = 0 \<or> l = 1" using l by auto
    then have "removeAt l (Items c) \<in> parents n (Items c)"
      using False by (auto simp add: parents_def)
    then show ?thesis using ps sub by auto
  qed
qed

lemma joinAll_distinct:
  assumes k: "k = int n + 2"
  shows "levelOk (Suc n) xs \<Longrightarrow> joinAll k L xs = Inr cs \<Longrightarrow> distinct (map Items cs)"
proof (induction xs arbitrary: cs)
  case Nil
  then show ?case by simp
next
  case (Cons a xs)
  obtain cs1 cs2 where s: "joinWithRest k L a xs = Inr cs1" "joinAll k L xs = Inr cs2"
    "cs = cs1 @ cs2"
    using Cons.prems(2) by (auto split: sum.splits)
  have ok': "levelOk (Suc n) xs" using Cons.prems(1) by (simp add: levelOk_Cons)
  have a: "Items a \<notin> Items ` set xs" using Cons.prems(1) by (simp add: levelOk_Cons)
  have d1: "distinct (map Items cs1)" using joinWithRest_distinct[OF k Cons.prems(1) s(1)] .
  have d2: "distinct (map Items cs2)" using Cons.IH[OF ok' s(2)] .
  have "Items c1 \<noteq> Items c2" if "c1 \<in> set cs1" "c2 \<in> set cs2" for c1 c2
  proof
    assume e: "Items c1 = Items c2"
    from joinWithRest_parents[OF k Cons.prems(1) s(1) that(1)]
    have "Items a \<in> parents n (Items c1)" by auto
    moreover have "parents n (Items c2) \<subseteq> Items ` set xs"
      using joinAll_candidate(4)[OF k ok' s(2) that(2)] .
    ultimately show False using a e by auto
  qed
  then have "set (map Items cs1) \<inter> set (map Items cs2) = {}" by auto
  then show ?case using d1 d2 s(3) by simp
qed

lemma joinAll_single [simp]: "joinAll k L [a] = Inr []"
  by simp

section \<open>Facts about the mining loop\<close>

lemma f64_of_int_0 [simp]: "f64_of_int 0 = Finite False 0"
  by (simp add: f64_of_int_def round64_def)




lemma generateCandidates_Nil [simp]: "generateCandidates [] k = Inr []"
  by (simp add: generateCandidates_def)

lemma findLk_Nil [simp]: "findLk dataset minSupport k [] = []"
  by (simp add: findLk_def)

lemma levelLoop_Nil: "levelLoop dataset minSupport maxLen k [] result = Inr result"
  by (subst levelLoop.simps) simp

lemma concat_map_if: "concat (map (\<lambda>x. if P x then [f x] else []) xs) = map f (filter P xs)"
  by (induction xs) simp_all

lemma findL1_eq:
  "findL1 dataset minSupport =
     map (\<lambda>item. \<lparr>Items = [item], Support = support1 dataset item, Length = 1\<rparr>)
       (filter (\<lambda>item. fge (support1 dataset item) minSupport) (UniqueItems dataset))"
  by (simp add: findL1_def Let_def concat_map_if)

lemma findLk_eq:
  "findLk dataset minSupport k Ck =
     map (\<lambda>candidate. \<lparr>Items = Items candidate, Support = supportK dataset (Items candidate),
                        Length = k\<rparr>)
       (filter (\<lambda>candidate. fge (supportK dataset (Items candidate)) minSupport) Ck)"
  by (simp add: findLk_def Let_def concat_map_if)

lemma findL1_levelOk:
  assumes "distinct (UniqueItems dataset)"
  shows "levelOk 1 (findL1 dataset minSupport)"
proof -
  have "distinct (map (\<lambda>item. [item])
      (filter (\<lambda>item. fge (support1 dataset item) minSupport) (UniqueItems dataset)))"
    using assms by (simp add: distinct_map inj_on_def)
  then show ?thesis by (simp add: levelOk_def findL1_eq list_all_iff o_def)
qed

lemma findLk_Items: "map Items (findLk dataset minSupport k Ck) =
    filter (\<lambda>items. fge (supportK dataset items) minSupport) (map Items Ck)"
  by (simp add: findLk_eq filter_map o_def)

lemma findLk_mem:
  "F \<in> set (findLk dataset minSupport k Ck) \<Longrightarrow>
     Length F = k \<and> Items F \<in> Items ` set Ck \<and> Support F = supportK dataset (Items F)
     \<and> fge (Support F) minSupport"
  by (auto simp add: findLk_eq)

lemma findLk_levelOk:
  assumes "levelOk n Ck"
  shows "levelOk n (findLk dataset minSupport k Ck)"
  using assms
  by (auto simp add: levelOk_def findLk_Items list_all_iff dest!: findLk_mem)

lemma generateCandidates_levelOk:
  assumes k: "k = int n + 2" and ok: "levelOk (Suc n) itemsets"
  shows "\<exists>Ck. generateCandidates itemsets k = Inr Ck \<and> levelOk (n + 2) Ck
           \<and> (\<forall>c\<in>set Ck. Length c = k
                \<and> (\<forall>l<n + 2. removeAt l (Items c) \<in> Items ` set itemsets))"
proof -
  have "\<forall>a\<in>set itemsets. length (Items a) = Suc n" using ok by (auto dest: levelOk_mem)
  from joinAll_lengths[OF k this, of itemsets] obtain Ck where
    Ck: "joinAll k itemsets itemsets = Inr Ck" by blast
  note c = joinAll_candidate[OF k ok Ck]
  have "levelOk (n + 2) Ck"
    using c(1,2) joinAll_distinct[OF k ok Ck] by (simp add: levelOk_def list_all_iff)
  then show ?thesis using Ck c(3) c(5)[OF _ subset_refl] by (simp add: generateCandidates_def)
qed

lemma resultOk_iff:
  "resultOk result \<longleftrightarrow>
     (\<forall>F\<in>set result. 1 \<le> length (Items F) \<and> Length F = int (length (Items F))
         \<and> sorted_wrt (<) (Items F))
     \<and> distinct (map Items result)
     \<and> (\<forall>F\<in>set result. 1 < length (Items F) \<longrightarrow>
          (\<forall>l<length (Items F). removeAt l (Items F) \<in> Items ` set result))"
  by (simp add: resultOk_def list_all_iff Ball_def)

lemma resultOk_append:
  assumes r: "resultOk result" and b: "\<forall>F\<in>set result. length (Items F) \<le> Suc n"
    and ok: "levelOk (n + 2) Lk"
    and c: "\<forall>F\<in>set Lk. Length F = int n + 2
               \<and> (\<forall>l<n + 2. removeAt l (Items F) \<in> Items ` set result)"
  shows "resultOk (result @ Lk)"
proof -
  have len: "\<forall>F\<in>set Lk. length (Items F) = n + 2 \<and> sorted_wrt (<) (Items F)"
    using ok by (auto dest: levelOk_mem)
  have "Items ` set result \<inter> Items ` set Lk = {}"
  proof (rule ccontr)
    assume "Items ` set result \<inter> Items ` set Lk \<noteq> {}"
    then obtain F G where "F \<in> set result" "G \<in> set Lk" "Items F = Items G" by auto
    then show False using b len by fastforce
  qed
  moreover have "distinct (map Items Lk)" using ok by (simp add: levelOk_def)
  ultimately have d: "distinct (map Items (result @ Lk))"
    using r by (simp add: resultOk_iff)
  have base: "\<forall>F\<in>set (result @ Lk). 1 \<le> length (Items F)
      \<and> Length F = int (length (Items F)) \<and> sorted_wrt (<) (Items F)"
    using r len c by (auto simp add: resultOk_iff)
  have cl: "\<forall>F\<in>set (result @ Lk). 1 < length (Items F) \<longrightarrow>
      (\<forall>l<length (Items F). removeAt l (Items F) \<in> Items ` set (result @ Lk))"
  proof (intro ballI impI allI)
    fix F l assume F: "F \<in> set (result @ Lk)" "1 < length (Items F)" "l < length (Items F)"
    show "removeAt l (Items F) \<in> Items ` set (result @ Lk)"
    proof (cases "F \<in> set result")
      case True
      then have "removeAt l (Items F) \<in> Items ` set result"
        using r F(2,3) by (simp add: resultOk_iff)
      then show ?thesis by auto
    next
      case False
      then have "F \<in> set Lk" using F(1) by simp
      then have "removeAt l (Items F) \<in> Items ` set result" using c len F(3) by auto
      then show ?thesis by auto
    qed
  qed
  show ?thesis unfolding resultOk_iff using base d cl by blast
qed

lemma levelLoop_resultOk:
  "k = int n + 2 \<Longrightarrow> levelOk (Suc n) Lk_1 \<Longrightarrow> set Lk_1 \<subseteq> set result \<Longrightarrow> resultOk result
     \<Longrightarrow> \<forall>F\<in>set result. length (Items F) \<le> Suc n
     \<Longrightarrow> \<exists>r. levelLoop dataset minSupport maxLen k Lk_1 result = Inr r \<and> resultOk r"
proof (induction dataset minSupport maxLen k Lk_1 result arbitrary: n rule: levelLoop.induct)
  case (1 dataset minSupport maxLen k Lk_1 result)
  show ?case
  proof (cases "k \<le> maxLen")
    case False
    then show ?thesis using "1.prems"(4) by (subst levelLoop.simps) simp
  next
    case True
    from generateCandidates_levelOk[OF "1.prems"(1,2)] obtain Ck where
      Ck: "generateCandidates Lk_1 k = Inr Ck" "levelOk (n + 2) Ck"
        "\<forall>c\<in>set Ck. Length c = k \<and> (\<forall>l<n + 2. removeAt l (Items c) \<in> Items ` set Lk_1)"
      by blast
    define Lk where "Lk = findLk dataset minSupport k Ck"
    show ?thesis
    proof (cases "length Lk = 0")
      case True
      then show ?thesis
        using \<open>k \<le> maxLen\<close> Ck(1) "1.prems"(4)
        by (subst levelLoop.simps) (simp add: Lk_def)
    next
      case False
      have ok: "levelOk (Suc (Suc n)) Lk" using findLk_levelOk[OF Ck(2)] by (simp add: Lk_def)
      have cl: "\<forall>F\<in>set Lk. Length F = int n + 2
               \<and> (\<forall>l<n + 2. removeAt l (Items F) \<in> Items ` set result)"
      proof
        fix F assume "F \<in> set Lk"
        from findLk_mem[OF this[unfolded Lk_def]] obtain c where
          c: "Length F = k" "c \<in> set Ck" "Items F = Items c" by auto
        have "\<forall>l<n + 2. removeAt l (Items c) \<in> Items ` set result"
          using Ck(3) c(2) "1.prems"(3) by blast
        then show "Length F = int n + 2
               \<and> (\<forall>l<n + 2. removeAt l (Items F) \<in> Items ` set result)"
          using c "1.prems"(1) by simp
      qed
      have r': "resultOk (result @ Lk)"
        using resultOk_append[OF "1.prems"(4,5) _ cl] ok by simp
      have b': "\<forall>F\<in>set (result @ Lk). length (Items F) \<le> Suc (Suc n)"
        using "1.prems"(5) ok by (auto dest: levelOk_mem)
      have "\<exists>r. levelLoop dataset minSupport maxLen (k + 1) Lk (result @ Lk) = Inr r \<and> resultOk r"
        using "1.IH"[OF True Ck(1) Lk_def False _ ok _ r' b', of ] "1.prems"(1) by simp
      then show ?thesis
        using \<open>k \<le> maxLen\<close> Ck(1) False
        by (subst levelLoop.simps) (simp add: Lk_def Let_def)
    qed
  qed
qed

lemma datasetOk_distinct: "datasetOk dataset \<Longrightarrow> distinct (UniqueItems dataset)"
  using strict_sorted_iff by (auto simp add: datasetOk_def)

lemma findL1_resultOk:
  assumes "distinct (UniqueItems dataset)"
  shows "resultOk (findL1 dataset minSupport)"
  using findL1_levelOk[OF assms, of minSupport]
  by (auto simp add: resultOk_iff levelOk_def list_all_iff findL1_eq)

lemma FindFrequentItemsets_resultOk:
  assumes "distinct (UniqueItems dataset)"
  shows "\<exists>result. FindFrequentItemsets dataset minSupport maxLen = Inr result \<and> resultOk result"
proof -
  let ?L1 = "findL1 dataset minSupport"
  have "\<forall>F\<in>set ?L1. length (Items F) \<le> Suc 0" by (auto simp add: findL1_eq)
  from levelLoop_resultOk[where k = 2 and n = 0 and ?Lk_1.0 = ?L1 and result = ?L1
      and dataset = dataset and minSupport = minSupport and maxLen = maxLen,
      OF _ _ _ findL1_resultOk[OF assms] this]
  show ?thesis
    using findL1_levelOk[OF assms, of minSupport] by (simp add: FindFrequentItemsets_def Let_def)
qed

lemma set_removeAt:
  assumes "distinct xs" "l < length xs"
  shows "set (removeAt l xs) = set xs - {xs ! l}"
proof -
  have "xs = take l xs @ xs ! l # drop (Suc l) xs" using assms(2) by (rule id_take_nth_drop)
  then have "distinct (take l xs @ xs ! l # drop (Suc l) xs)"
    "set xs = set (take l xs @ xs ! l # drop (Suc l) xs)" using assms(1) by simp_all
  then show ?thesis by (auto simp add: removeAt_def)
qed

lemma subset_one_less:
  assumes d: "distinct xs" and S: "S \<subseteq> set xs" and c: "card S = length xs - 1" and ne: "xs \<noteq> []"
  shows "\<exists>l<length xs. S = set (removeAt l xs)"
proof -
  have "card (set xs) = length xs" using d by (rule distinct_card)
  then have "card (set xs - S) = 1"
    using S c ne by (simp add: card_Diff_subset finite_subset[OF S] Suc_leI)
  then obtain x where x: "set xs - S = {x}" by (auto simp add: card_1_singleton_iff)
  then have "x \<in> set xs" by auto
  then obtain l where l: "l < length xs" "xs ! l = x" by (auto simp add: in_set_conv_nth)
  have "S = set xs - {x}" using x S by auto
  then show ?thesis using l set_removeAt[OF d l(1)] by auto
qed

lemma sorted_removeAt:
  fixes xs :: "string list"
  assumes "sorted_wrt (<) xs"
  shows "sorted_wrt (<) (removeAt l xs)"
proof -
  have "sorted_wrt (<) (take l xs @ drop l xs)" using assms by simp
  then have a: "sorted_wrt (<) (take l xs)" "sorted_wrt (<) (drop l xs)"
    "\<forall>x\<in>set (take l xs). \<forall>y\<in>set (drop l xs). x < y"
    unfolding sorted_wrt_append by blast+
  have "drop (Suc l) xs = drop 1 (drop l xs)" by simp
  then have b: "sorted_wrt (<) (drop (Suc l) xs)" "set (drop (Suc l) xs) \<subseteq> set (drop l xs)"
    using a(2) sorted_wrt_drop[of "(<)" "drop l xs" 1] set_drop_subset[of 1 "drop l xs"]
    by simp_all
  show ?thesis
    unfolding removeAt_def sorted_wrt_append using a(1,3) b by blast
qed

lemma levelLoop_returns:
  "k = int n + 2 \<Longrightarrow> \<forall>F\<in>set Lk_1. length (Items F) = Suc n
     \<Longrightarrow> \<exists>r. levelLoop dataset minSupport maxLen k Lk_1 result = Inr r"
proof (induction dataset minSupport maxLen k Lk_1 result arbitrary: n rule: levelLoop.induct)
  case (1 dataset minSupport maxLen k Lk_1 result)
  show ?case
  proof (cases "k \<le> maxLen")
    case False
    then show ?thesis by (subst levelLoop.simps) simp
  next
    case True
    from joinAll_lengths[OF "1.prems", of Lk_1] obtain Ck where
      Ck: "generateCandidates Lk_1 k = Inr Ck" "\<forall>c\<in>set Ck. length (Items c) = n + 2"
      by (auto simp add: generateCandidates_def)
    define Lk where "Lk = findLk dataset minSupport k Ck"
    show ?thesis
    proof (cases "length Lk = 0")
      case True
      then show ?thesis
        using \<open>k \<le> maxLen\<close> Ck(1) by (subst levelLoop.simps) (simp add: Lk_def)
    next
      case False
      have "\<forall>F\<in>set Lk. length (Items F) = Suc (Suc n)"
        using Ck(2) by (auto simp add: Lk_def dest!: findLk_mem)
      from "1.IH"[OF True Ck(1) Lk_def False _ this] "1.prems"(1)
      have "\<exists>r. levelLoop dataset minSupport maxLen (k + 1) Lk (result @ Lk) = Inr r" by simp
      then show ?thesis
        using \<open>k \<le> maxLen\<close> Ck(1) False
        by (subst levelLoop.simps) (simp add: Lk_def Let_def)
    qed
  qed
qed

lemma FindFrequentItemsets_returns:
  "\<exists>result. FindFrequentItemsets dataset minSupport maxLen = Inr result"
  using levelLoop_returns[of 2 0 "findL1 dataset minSupport" dataset minSupport maxLen
      "findL1 dataset minSupport"]
  by (auto simp add: FindFrequentItemsets_def Let_def findL1_eq)

lemma support1_range:
  "support1 dataset item = NaN
     \<or> (\<exists>r. support1 dataset item = Finite False r \<and> 0 \<le> r \<and> r \<le> 1)"
  unfolding support1_def by (rule fdiv_counts) simp

lemma supportK_range:
  "supportK dataset items = NaN
     \<or> (\<exists>r. supportK dataset items = Finite False r \<and> 0 \<le> r \<and> r \<le> 1)"
  unfolding supportK_def by (rule fdiv_counts) simp

lemma not_fge_above_one:
  assumes "flt f64_one minSupport" "x = NaN \<or> (\<exists>r. x = Finite False r \<and> 0 \<le> r \<and> r \<le> 1)"
  shows "\<not> fge x minSupport"
  using assms by (cases minSupport) (auto simp add: f64_one_def signed_def split: if_splits)

lemma findL1_above_one:
  assumes "flt f64_one minSupport"
  shows "findL1 dataset minSupport = []"
  using not_fge_above_one[OF assms support1_range] by (simp add: findL1_eq)

lemma FindFrequentItemsets_no_loop:
  "maxLen < 2 \<Longrightarrow> FindFrequentItemsets dataset minSupport maxLen = Inr (findL1 dataset minSupport)"
  by (simp add: FindFrequentItemsets_def Let_def levelLoop.simps)

lemma round64_not_NaN [simp]: "round64 s a \<noteq> NaN"
  by (simp add: round64_def Let_def)

lemma f64_of_int_len:
  assumes "0 < n" "n < 2 ^ 63"
  shows "\<exists>r. f64_of_int (int n) = Finite False r \<and> 0 < r"
proof -
  have a: "(0::rat) \<le> of_nat n" "(of_nat n :: rat) \<le> pow2 63"
    using assms(2) by (simp_all add: pow2_def)
  from round64_le_pow2[OF a, of False] obtain r where
    r: "round64 False (of_nat n) = Finite False r" by auto
  have "pow2 0 \<le> (of_nat n :: rat)" using assms(1) by simp
  from round64_ge_pow2[OF this, of False] r have "1 \<le> r" by simp
  then show ?thesis using r by (simp add: f64_of_int_nat)
qed

lemma support1_finite:
  assumes "Transactions dataset \<noteq> []" "length (Transactions dataset) < 2 ^ 63"
  shows "\<exists>r. support1 dataset item = Finite False r \<and> 0 \<le> r"
proof -
  define n where "n = length (Transactions dataset)"
  define c where
    "c = length (filter (\<lambda>transaction. containsItem transaction item) (Transactions dataset))"
  have s: "support1 dataset item = fdiv (f64_of_int (int c)) (f64_of_int (int n))"
    by (simp add: support1_def c_def n_def)
  have cn: "c \<le> n" by (simp add: c_def n_def)
  from f64_of_int_len[of n] assms obtain rn where
    rn: "f64_of_int (int n) = Finite False rn" "0 < rn" by (auto simp add: n_def)
  have "(0::rat) \<le> of_nat c" by simp
  from round64_shape[OF this, of False] consider
    "f64_of_int (int c) = Infinity False"
    | rc where "f64_of_int (int c) = Finite False rc" "0 \<le> rc"
    by (auto simp add: f64_of_int_nat)
  then show ?thesis
  proof cases
    case 1
    then show ?thesis using fdiv_counts[OF cn] rn by simp
  next
    case 2
    then show ?thesis using fdiv_counts[OF cn] rn unfolding s by auto
  qed
qed

lemma findL1_nonpositive:
  assumes "fge (Finite False 0) minSupport"
    "Transactions dataset \<noteq> []" "length (Transactions dataset) < 2 ^ 63"
  shows "map Items (findL1 dataset minSupport) = map (\<lambda>item. [item]) (UniqueItems dataset)"
proof -
  have "fge (support1 dataset item) minSupport" for item
  proof -
    from support1_finite[OF assms(2,3)] obtain r where
      "support1 dataset item = Finite False r" "0 \<le> r" by blast
    then show ?thesis using assms(1) by (cases minSupport) (auto simp add: signed_def split: if_splits)
  qed
  then show ?thesis by (simp add: findL1_eq o_def)
qed

lemma levelLoop_dataset:
  "Transactions d1 = Transactions d2 \<Longrightarrow>
     levelLoop d1 minSupport maxLen k Lk_1 result = levelLoop d2 minSupport maxLen k Lk_1 result"
proof (induction d1 minSupport maxLen k Lk_1 result rule: levelLoop.induct)
  case (1 dataset minSupport maxLen k Lk_1 result)
  have f: "findLk dataset minSupport k Ck = findLk d2 minSupport k Ck" for Ck
    using "1.prems" by (simp add: findLk_def supportK_def)
  show ?case
  proof (cases "k \<le> maxLen")
    case False
    then show ?thesis by (simp add: levelLoop.simps)
  next
    case True
    show ?thesis
    proof (cases "generateCandidates Lk_1 k")
      case (Inl e)
      then show ?thesis using True by (simp add: levelLoop.simps)
    next
      case (Inr Ck)
      show ?thesis
      proof (cases "length (findLk dataset minSupport k Ck) = 0")
        case True
        then show ?thesis
          using \<open>k \<le> maxLen\<close> Inr f[of Ck]
          by (subst levelLoop.simps, subst (2) levelLoop.simps) simp
      next
        case False
        from "1.IH"[OF True Inr refl False "1.prems"] show ?thesis
          using \<open>k \<le> maxLen\<close> Inr f[of Ck] False
          by (subst levelLoop.simps, subst (2) levelLoop.simps) (simp add: Let_def)
      qed
    qed
  qed
qed

lemma FindFrequentItemsets_dataset:
  assumes "Transactions d1 = Transactions d2" "UniqueItems d1 = UniqueItems d2"
  shows "FindFrequentItemsets d1 minSupport maxLen = FindFrequentItemsets d2 minSupport maxLen"
proof -
  have "findL1 d1 minSupport = findL1 d2 minSupport"
    using assms by (simp add: findL1_def support1_def)
  then show ?thesis
    using levelLoop_dataset[OF assms(1)] by (simp add: FindFrequentItemsets_def)
qed

lemma levelLoop_all:
  assumes P: "\<And>dataset minSupport k Ck F.
      F \<in> set (findLk dataset minSupport k Ck) \<Longrightarrow> P dataset minSupport F"
  shows "\<forall>F\<in>set result. P dataset minSupport F
           \<Longrightarrow> levelLoop dataset minSupport maxLen k Lk_1 result = Inr r
           \<Longrightarrow> \<forall>F\<in>set r. P dataset minSupport F"
proof (induction dataset minSupport maxLen k Lk_1 result rule: levelLoop.induct)
  case (1 dataset minSupport maxLen k Lk_1 result)
  show ?case
  proof (cases "k \<le> maxLen")
    case False
    then show ?thesis using "1.prems" by (simp add: levelLoop.simps)
  next
    case True
    then obtain Ck where Ck: "generateCandidates Lk_1 k = Inr Ck"
      using "1.prems"(2) by (subst (asm) levelLoop.simps) (auto split: sum.splits)
    show ?thesis
    proof (cases "length (findLk dataset minSupport k Ck) = 0")
      case True
      then show ?thesis
        using \<open>k \<le> maxLen\<close> Ck "1.prems" by (subst (asm) levelLoop.simps) simp
    next
      case False
      have a: "\<forall>F\<in>set (result @ findLk dataset minSupport k Ck). P dataset minSupport F"
        using "1.prems"(1) P by auto
      have "levelLoop dataset minSupport maxLen (k + 1) (findLk dataset minSupport k Ck)
          (result @ findLk dataset minSupport k Ck) = Inr r"
        using \<open>k \<le> maxLen\<close> Ck False "1.prems"(2)
        by (subst (asm) levelLoop.simps) (simp add: Let_def)
      from "1.IH"[OF True Ck refl False a this] show ?thesis by simp
    qed
  qed
qed

lemma unitSupport_kept:
  assumes "x = NaN \<or> (\<exists>r. x = Finite False r \<and> 0 \<le> r \<and> r \<le> 1)" "fge x minSupport"
  shows "unitSupport x"
  using assms by (auto simp add: unitSupport_def f64_one_def signed_def)

lemma support1_supportK: "support1 dataset item = supportK dataset [item]"
  by (simp add: support1_def supportK_def)

lemma mining_support_facts:
  assumes "FindFrequentItemsets dataset minSupport maxLen = Inr result" "F \<in> set result"
  shows "Support F = supportK dataset (Items F)" and "fge (Support F) minSupport"
    and "unitSupport (Support F)"
proof -
  let ?P = "\<lambda>dataset minSupport F. Support F = supportK dataset (Items F)
      \<and> fge (Support F) minSupport \<and> unitSupport (Support F)"
  have 1: "\<forall>F\<in>set (findL1 dataset minSupport). ?P dataset minSupport F"
    using unitSupport_kept[OF support1_range]
    by (auto simp add: findL1_eq support1_supportK[symmetric])
  have 2: "?P dataset minSupport F" if "F \<in> set (findLk dataset minSupport k Ck)"
    for dataset minSupport k Ck F
    using findLk_mem[OF that] unitSupport_kept[OF supportK_range] by auto
  have 3: "levelLoop dataset minSupport maxLen 2 (findL1 dataset minSupport)
      (findL1 dataset minSupport) = Inr result"
    using assms(1) by (simp add: FindFrequentItemsets_def Let_def)
  have "\<forall>F\<in>set result. ?P dataset minSupport F"
    by (rule levelLoop_all[where P = ?P, OF _ 1 3]) (rule 2)
  then have "?P dataset minSupport F" using assms(2) by blast
  then show "Support F = supportK dataset (Items F)" "fge (Support F) minSupport"
    "unitSupport (Support F)" by blast+
qed

lemma mining_supports:
  assumes "FindFrequentItemsets dataset minSupport maxLen = Inr result"
  shows "list_all (\<lambda>F. unitSupport (Support F)) result"
  using mining_support_facts(3)[OF assms] by (simp add: list_all_iff)

lemma mining_items_distinct:
  assumes "datasetOk dataset" "FindFrequentItemsets dataset minSupport maxLen = Inr result"
  shows "\<forall>F\<in>set result. distinct (Items F)"
  using FindFrequentItemsets_resultOk[OF datasetOk_distinct[OF assms(1)], of minSupport maxLen]
    assms(2) strict_sorted_iff
  by (auto simp add: resultOk_iff)

subsection \<open>Supports of sub-itemsets\<close>

text \<open>
  Support does not grow with the itemset: with at least one transaction (and fewer than
  \<open>2 ^ 63\<close>, as a slice has), the support counted for a set of items is at least the
  support counted for any larger set.
\<close>

lemma f64_of_int_bounded:
  assumes "n < 2 ^ 63"
  shows "\<exists>r. f64_of_int (int n) = Finite False r \<and> 0 \<le> r"
proof -
  have a: "(0::rat) \<le> of_nat n" "(of_nat n :: rat) \<le> pow2 63"
    using assms by (simp_all add: pow2_def)
  from round64_le_pow2[OF a, of False] show ?thesis by (auto simp add: f64_of_int_nat)
qed

lemma fdiv_counts_mono:
  assumes c: "c1 \<le> c2" "c2 \<le> n" and n: "0 < n" "n < 2 ^ 63"
  shows "fge (fdiv (f64_of_int (int c2)) (f64_of_int (int n)))
             (fdiv (f64_of_int (int c1)) (f64_of_int (int n)))"
proof -
  from f64_of_int_len[OF n] obtain rn where
    rn: "f64_of_int (int n) = Finite False rn" "0 < rn" by blast
  from f64_of_int_bounded[of c1] f64_of_int_bounded[of c2] c n obtain r1 r2 where
    r: "f64_of_int (int c1) = Finite False r1" "0 \<le> r1"
       "f64_of_int (int c2) = Finite False r2" "0 \<le> r2"
    by (metis le_less_trans)
  have "fge (round64 False (of_nat c2)) (round64 False (of_nat c1))"
    using c(1) by (intro round64_mono) simp_all
  then have le: "r1 \<le> r2" using r by (simp add: f64_of_int_nat signed_def)
  have "fge (round64 False (r2 / rn)) (round64 False (r1 / rn))"
    using le r(2) rn(2) by (intro round64_mono) (simp_all add: divide_right_mono)
  then show ?thesis using r rn by simp
qed

lemma support_antimonotone:
  assumes "set items \<subseteq> set items'" "Transactions dataset \<noteq> []"
    "length (Transactions dataset) < 2 ^ 63"
  shows "fge (supportK dataset items) (supportK dataset items')"
proof -
  let ?T = "Transactions dataset"
  have "length (filter (\<lambda>transaction. isSubset items' transaction) ?T)
      \<le> length (filter (\<lambda>transaction. isSubset items transaction) ?T)"
  proof -
    have "filter (\<lambda>transaction. isSubset items' transaction) ?T
        = filter (\<lambda>transaction. isSubset items' transaction)
            (filter (\<lambda>transaction. isSubset items transaction) ?T)"
      using assms(1) by (auto intro!: filter_cong)
    then show ?thesis by (metis length_filter_le)
  qed
  moreover have "length (filter (\<lambda>transaction. isSubset items transaction) ?T) \<le> length ?T"
    by simp
  moreover have "0 < length ?T" using assms(2) by simp
  ultimately show ?thesis
    unfolding supportK_def by (intro fdiv_counts_mono assms(3))
qed

section \<open>Facts about rule generation\<close>

lemma mask_bit [simp]: "0 < and i (2 ^ j) \<longleftrightarrow> bit i j" for i :: nat
  using and_exp_eq_0_iff_not_bit[of i j] by auto

lemma maskSubset_eq:
  "maskSubset xs i = map (\<lambda>j. xs ! j) (filter (\<lambda>j. bit i j) [0..<length xs])"
  by (simp add: maskSubset_def)

lemma maskSubset_set: "set (maskSubset xs i) \<subseteq> set xs"
  by (auto simp add: maskSubset_eq)

lemma maskSubset_sorted:
  fixes xs :: "string list"
  assumes "sorted_wrt (<) xs"
  shows "sorted_wrt (<) (maskSubset xs i)"
proof -
  have "sorted_wrt (<) (filter (\<lambda>j. bit i j) [0..<length xs])"
    by (intro sorted_wrt_filter) simp
  then have "sorted_wrt (\<lambda>a b. xs ! a < xs ! b) (filter (\<lambda>j. bit i j) [0..<length xs])"
    by (rule sorted_wrt_mono_rel[rotated]) (use assms in \<open>auto simp add: sorted_wrt_iff_nth_less\<close>)
  then show ?thesis by (simp add: maskSubset_eq sorted_wrt_map)
qed

lemma maskSubset_distinct:
  assumes "distinct xs"
  shows "distinct (maskSubset xs i)"
  using assms by (auto simp add: maskSubset_eq distinct_map inj_on_def nth_eq_iff_index_eq)

lemma wrap64_id: "0 \<le> x \<Longrightarrow> x < 2 ^ 63 \<Longrightarrow> wrap64 x = x"
  by (simp add: wrap64_def)

lemma count_small:
  assumes "n < 44"
  shows "(2::int) ^ n \<le> 2 ^ 43"
  using assms by (intro power_increasing) simp_all

lemma generateAllSubsets_returns:
  assumes "length xs < 44"
  shows "generateAllSubsets xs = Inr (map (maskSubset xs) [1..<2 ^ length xs])"
proof -
  have c: "(2::int) ^ length xs \<le> 2 ^ 43" "(1::int) \<le> 2 ^ length xs"
    using count_small[OF assms] by simp_all
  then have w: "wrap64 (2 ^ length xs) = 2 ^ length xs"
    "wrap64 (2 ^ length xs - 1) = 2 ^ length xs - 1"
    by (simp_all add: wrap64_id)
  have "makesliceOk 24 (2 ^ length xs - 1)"
    using c by (simp add: makesliceOk_def maxAlloc_def)
  then show ?thesis using assms w by (simp add: generateAllSubsets_def Let_def nat_power_eq)
qed

lemma generateAllSubsets_panics:
  assumes "44 \<le> length xs"
  shows "generateAllSubsets xs = Inl MakeSliceOutOfRange"
proof -
  consider "length xs < 63" | "length xs = 63" | "64 \<le> length xs" by linarith
  then show ?thesis
  proof cases
    case 1
    have c: "(2::int) ^ 44 \<le> 2 ^ length xs" "(2::int) ^ length xs \<le> 2 ^ 62"
      using assms 1 by (intro power_increasing; simp)+
    have "(1::int) \<le> 2 ^ length xs" by simp
    note c = c this
    then have w: "wrap64 (2 ^ length xs) = 2 ^ length xs"
      "wrap64 (2 ^ length xs - 1) = 2 ^ length xs - 1"
      by (simp_all add: wrap64_id)
    have "\<not> makesliceOk 24 (2 ^ length xs - 1)"
      using c by (simp add: makesliceOk_def maxAlloc_def)
    then show ?thesis using 1 w by (simp add: generateAllSubsets_def Let_def)
  next
    case 2
    then show ?thesis
      by (simp add: generateAllSubsets_def Let_def wrap64_def makesliceOk_def maxAlloc_def)
  next
    case 3
    then show ?thesis
      by (simp add: generateAllSubsets_def Let_def wrap64_def makesliceOk_def)
  qed
qed

lemma generateAllSubsets_mem:
  assumes "generateAllSubsets xs = Inr subs" "a \<in> set subs"
  shows "\<exists>i. 1 \<le> i \<and> i < 2 ^ length xs \<and> a = maskSubset xs i"
proof -
  have "length xs < 44"
    using assms(1) generateAllSubsets_panics[of xs] by (cases "length xs < 44") auto
  from generateAllSubsets_returns[OF this] assms show ?thesis by auto
qed

lemma difference_set: "set (difference a b) = set a - set b"
  by (auto simp add: difference_eq)

lemma difference_sorted:
  fixes a :: "string list"
  shows "sorted_wrt (<) a \<Longrightarrow> sorted_wrt (<) (difference a b)"
  by (simp add: difference_eq sorted_wrt_filter)

lemma proper_sublist_complement:
  assumes d: "distinct xs" and a: "distinct a" "set a \<subseteq> set xs" and l: "length a \<noteq> length xs"
  shows "difference xs a \<noteq> []"
proof
  assume "difference xs a = []"
  then have "set xs - set a = {}" using difference_set[of xs a] by simp
  then have "set a = set xs" using a(2) by auto
  then have "card (set a) = card (set xs)" by simp
  then show False using l d a(1) by (simp add: distinct_card)
qed

lemma fold_itemsetMap_dom:
  "fold (\<lambda>itemset m. m(Join (Items itemset) sep \<mapsto> Support itemset)) itemsets m0 key = None
     \<longleftrightarrow> m0 key = None \<and> key \<notin> (\<lambda>itemset. Join (Items itemset) sep) ` set itemsets"
  by (induction itemsets arbitrary: m0) auto

lemma buildItemsetMap_None:
  "buildItemsetMap itemsets key = None
     \<longleftrightarrow> key \<notin> (\<lambda>itemset. Join (Items itemset) '','') ` set itemsets"
  by (simp add: buildItemsetMap_def fold_itemsetMap_dom)

lemma fold_itemsetMap_Some:
  "fold (\<lambda>itemset m. m(Join (Items itemset) sep \<mapsto> Support itemset)) itemsets m0 key = Some v
     \<Longrightarrow> m0 key = Some v \<or> (\<exists>F\<in>set itemsets. Support F = v \<and> Join (Items F) sep = key)"
  by (induction itemsets arbitrary: m0) (fastforce split: if_splits)+

lemma buildItemsetMap_Some:
  "buildItemsetMap itemsets key = Some v
     \<Longrightarrow> \<exists>F\<in>set itemsets. Support F = v \<and> Join (Items F) '','' = key"
  using fold_itemsetMap_Some[of "'',''" itemsets Map.empty key v]
  by (simp add: buildItemsetMap_def)

lemma ruleStep_Emit:
  assumes "ruleStep itemsetMap minConfidence itemset antecedent = Emit r"
  shows "antecedent \<noteq> []" and "length antecedent \<noteq> length (Items itemset)"
    and "Antecedent r = antecedent" and "Consequent r = difference (Items itemset) antecedent"
    and "AssociationRule.Support r = FrequentItemset.Support itemset"
    and "\<exists>antecedentSupport consequentSupport.
           itemsetMap (Join antecedent '','') = Some antecedentSupport
           \<and> itemsetMap (Join (Consequent r) '','') = Some consequentSupport
           \<and> Confidence r = fdiv (FrequentItemset.Support itemset) antecedentSupport
           \<and> fge (Confidence r) minConfidence
           \<and> Lift r = fdiv (Confidence r) consequentSupport
           \<and> LeverageMetric r = fsub (FrequentItemset.Support itemset)
                 (fmul antecedentSupport consequentSupport)
           \<and> ConvictionMetric r = conviction consequentSupport (Confidence r)"
  using assms
  by (auto simp add: ruleStep_def Let_def split: if_splits option.splits)

lemma emitted_mem: "r \<in> set (emitted os) \<longleftrightarrow> Emit r \<in> set os"
  by (induction os rule: emitted.induct) auto

lemma itemsetSteps_mem:
  assumes "itemsetSteps itemsetMap minConfidence itemset = Inr os" "out \<in> set os"
  shows "1 < Length itemset \<and> (\<exists>antecedents. generateAllSubsets (Items itemset) = Inr antecedents
           \<and> (\<exists>antecedent\<in>set antecedents.
                 out = ruleStep itemsetMap minConfidence itemset antecedent))"
  using assms by (auto simp add: itemsetSteps_def split: if_splits sum.splits)

lemma stepsLoop_mem:
  "stepsLoop itemsetMap minConfidence itemsets = Inr os \<Longrightarrow> out \<in> set os
     \<Longrightarrow> \<exists>itemset\<in>set itemsets. \<exists>ps.
           itemsetSteps itemsetMap minConfidence itemset = Inr ps \<and> out \<in> set ps"
proof (induction itemsets arbitrary: os)
  case Nil
  then show ?case by simp
next
  case (Cons itemset rest)
  then show ?case by (auto split: sum.splits)
qed

lemma ruleOutcomes_mem:
  assumes "ruleOutcomes itemsets minConfidence = Inr os" "out \<in> set os"
  shows "\<exists>itemset\<in>set itemsets. 1 < Length itemset
           \<and> (\<exists>antecedents. generateAllSubsets (Items itemset) = Inr antecedents
                \<and> (\<exists>antecedent\<in>set antecedents.
                     out = ruleStep (buildItemsetMap itemsets) minConfidence itemset antecedent))"
proof -
  from stepsLoop_mem[OF assms(1)[unfolded ruleOutcomes_def] assms(2)] obtain itemset ps where
    "itemset \<in> set itemsets"
    "itemsetSteps (buildItemsetMap itemsets) minConfidence itemset = Inr ps" "out \<in> set ps"
    by blast
  then show ?thesis using itemsetSteps_mem by blast
qed

lemma GenerateAssociationRules_mem:
  assumes "GenerateAssociationRules itemsets minConfidence = Inr rules" "r \<in> set rules"
  shows "\<exists>itemset\<in>set itemsets. 1 < Length itemset
           \<and> (\<exists>antecedents. generateAllSubsets (Items itemset) = Inr antecedents
                \<and> (\<exists>antecedent\<in>set antecedents.
                     ruleStep (buildItemsetMap itemsets) minConfidence itemset antecedent = Emit r))"
proof -
  from assms obtain os where os: "ruleOutcomes itemsets minConfidence = Inr os" "Emit r \<in> set os"
    by (auto simp add: GenerateAssociationRules_def emitted_mem split: sum.splits)
  from ruleOutcomes_mem[OF this] show ?thesis by metis
qed

lemma stepsLoop_returns:
  "\<forall>itemset\<in>set itemsets. length (Items itemset) < 44
     \<Longrightarrow> \<exists>os. stepsLoop itemsetMap minConfidence itemsets = Inr os"
proof (induction itemsets)
  case Nil
  then show ?case by simp
next
  case (Cons itemset rest)
  then show ?case
    by (auto simp add: itemsetSteps_def generateAllSubsets_returns split: sum.splits)
qed

lemma GenerateAssociationRules_returns:
  assumes "\<forall>itemset\<in>set itemsets. length (Items itemset) < 44"
  shows "\<exists>rules. GenerateAssociationRules itemsets minConfidence = Inr rules"
  using stepsLoop_returns[OF assms, of "buildItemsetMap itemsets" minConfidence]
  by (auto simp add: GenerateAssociationRules_def ruleOutcomes_def)

text \<open>Every non-empty set of items of an itemset of the result is an itemset of the result.\<close>

lemma resultOk_subsets:
  assumes r: "resultOk result"
  shows "F \<in> set result \<Longrightarrow> S \<subseteq> set (Items F) \<Longrightarrow> S \<noteq> {}
           \<Longrightarrow> sorted_list_of_set S \<in> Items ` set result"
proof (induction "length (Items F)" arbitrary: F rule: less_induct)
  case less
  have w: "sorted_wrt (<) (Items F)" using r less.prems(1) by (simp add: resultOk_iff)
  then have d: "distinct (Items F)" using strict_sorted_iff by blast
  show ?case
  proof (cases "S = set (Items F)")
    case True
    then have "sorted_list_of_set S = Items F"
      using w by (metis sorted_list_of_set.idem_if_sorted_distinct strict_sorted_iff)
    then show ?thesis using less.prems(1) by auto
  next
    case False
    then obtain x where x: "x \<in> set (Items F)" "x \<notin> S" using less.prems(2) by auto
    then obtain l where l: "l < length (Items F)" "Items F ! l = x"
      by (auto simp add: in_set_conv_nth)
    obtain y where "y \<in> S" using less.prems(3) by auto
    then have "y \<in> set (Items F)" "y \<noteq> x" using less.prems(2) x(2) by auto
    then have "card {x, y} \<le> card (set (Items F))" using x(1) by (intro card_mono) auto
    then have len: "1 < length (Items F)"
      using \<open>y \<noteq> x\<close> d by (simp add: distinct_card)
    then have "removeAt l (Items F) \<in> Items ` set result"
      using r less.prems(1) l(1) by (simp add: resultOk_iff)
    then obtain G where G: "G \<in> set result" "Items G = removeAt l (Items F)" by auto
    have "length (Items G) < length (Items F)" using G(2) l(1) by (simp add: removeAt_def)
    moreover have "S \<subseteq> set (Items G)"
      using less.prems(2) x(2) l(2) set_removeAt[OF d l(1)] G(2) by auto
    ultimately show ?thesis using less.hyps[OF _ G(1) _ less.prems(3)] by blast
  qed
qed

lemma resultOk_sublist:
  assumes r: "resultOk result" and F: "F \<in> set result"
    and a: "sorted_wrt (<) a" "set a \<subseteq> set (Items F)" "a \<noteq> []"
  shows "buildItemsetMap result (Join a '','') \<noteq> None"
proof -
  have "sorted_list_of_set (set a) = a"
    using a(1) by (metis sorted_list_of_set.idem_if_sorted_distinct strict_sorted_iff)
  moreover have "sorted_list_of_set (set a) \<in> Items ` set result"
    using resultOk_subsets[OF r F a(2)] a(3) by simp
  ultimately have "a \<in> Items ` set result" by simp
  then show ?thesis by (auto simp add: buildItemsetMap_None)
qed

lemma ruleStep_no_miss:
  assumes "itemsetMap (Join antecedent '','') \<noteq> None"
    "itemsetMap (Join (difference (Items itemset) antecedent) '','') \<noteq> None"
  shows "ruleStep itemsetMap minConfidence itemset antecedent \<noteq> MissingAntecedent"
    and "ruleStep itemsetMap minConfidence itemset antecedent \<noteq> MissingConsequent"
  using assms by (auto simp add: ruleStep_def Let_def split: option.splits)

lemma ruleStep_trivial:
  "length antecedent = 0 \<or> length antecedent = length (Items itemset)
     \<Longrightarrow> ruleStep itemsetMap minConfidence itemset antecedent = SkipTrivial"
  by (simp add: ruleStep_def)

lemma resultOk_lookups:
  assumes r: "resultOk result" and F: "F \<in> set result"
    and g: "generateAllSubsets (Items F) = Inr antecedents" and a: "antecedent \<in> set antecedents"
    and ne: "length antecedent \<noteq> 0" "length antecedent \<noteq> length (Items F)"
  shows "buildItemsetMap result (Join antecedent '','') \<noteq> None"
    and "buildItemsetMap result (Join (difference (Items F) antecedent) '','') \<noteq> None"
proof -
  have w: "sorted_wrt (<) (Items F)" using r F by (simp add: resultOk_iff)
  then have d: "distinct (Items F)" using strict_sorted_iff by blast
  from generateAllSubsets_mem[OF g a] obtain i where i: "antecedent = maskSubset (Items F) i"
    by blast
  have s: "sorted_wrt (<) antecedent" "set antecedent \<subseteq> set (Items F)" "distinct antecedent"
    unfolding i using maskSubset_sorted[OF w] maskSubset_set maskSubset_distinct[OF d] by auto
  show "buildItemsetMap result (Join antecedent '','') \<noteq> None"
    using resultOk_sublist[OF r F s(1,2)] ne(1) by auto
  have "difference (Items F) antecedent \<noteq> []"
    using proper_sublist_complement[OF d s(3,2) ne(2)] .
  moreover have "set (difference (Items F) antecedent) \<subseteq> set (Items F)"
    by (auto simp add: difference_set)
  ultimately show "buildItemsetMap result (Join (difference (Items F) antecedent) '','') \<noteq> None"
    using resultOk_sublist[OF r F difference_sorted[OF w]] by blast
qed

lemma resultOk_outcomes:
  assumes r: "resultOk result" and o: "ruleOutcomes result minConfidence = Inr os"
  shows "MissingAntecedent \<notin> set os" and "MissingConsequent \<notin> set os"
proof -
  have "out \<noteq> MissingAntecedent \<and> out \<noteq> MissingConsequent" if "out \<in> set os" for out
  proof -
    from ruleOutcomes_mem[OF o that] obtain F antecedents antecedent where
      F: "F \<in> set result" "generateAllSubsets (Items F) = Inr antecedents"
        "antecedent \<in> set antecedents"
        "out = ruleStep (buildItemsetMap result) minConfidence F antecedent"
      by blast
    show ?thesis
    proof (cases "length antecedent = 0 \<or> length antecedent = length (Items F)")
      case True
      then show ?thesis using F(4) by (simp add: ruleStep_trivial)
    next
      case False
      then show ?thesis
        using resultOk_lookups[OF r F(1,2,3)] F(4) ruleStep_no_miss by simp
    qed
  qed
  then show "MissingAntecedent \<notin> set os" "MissingConsequent \<notin> set os" by blast+
qed

section \<open>The example, evaluated\<close>

lemma f64_of_int_small:
  assumes "0 \<le> n" "n < 2 ^ 53"
  shows "f64_of_int n = Finite False (of_int n)"
  using round64_exact[OF assms, of 0 False] assms by (simp add: f64_of_int_def)

lemma round64_quarters:
  "round64 s (1 / 4) = Finite s (1 / 4)"
  "round64 s (1 / 2) = Finite s (1 / 2)"
  "round64 s (3 / 4) = Finite s (3 / 4)"
  "round64 s 1 = Finite s 1"
  using round64_exact[of 1 "- 2" s] round64_exact[of 1 "- 1" s] round64_exact[of 3 "- 2" s]
    round64_exact[of 1 0 s]
  by (simp_all add: pow2_def)

lemma example_fields:
  "Transactions exampleDataset =
     [[''bread'', ''milk''], [''bread'', ''butter''], [''bread'', ''milk'', ''butter''], [''milk'']]"
  "UniqueItems exampleDataset = [''bread'', ''butter'', ''milk'']"
  by (simp_all add: exampleDataset_def)

lemma example_supports:
  "support1 exampleDataset ''bread'' = Finite False (3 / 4)"
  "support1 exampleDataset ''butter'' = Finite False (1 / 2)"
  "support1 exampleDataset ''milk'' = Finite False (3 / 4)"
  "supportK exampleDataset [''bread'', ''butter''] = Finite False (1 / 2)"
  "supportK exampleDataset [''bread'', ''milk''] = Finite False (1 / 2)"
  "supportK exampleDataset [''butter'', ''milk''] = Finite False (1 / 4)"
  "supportK exampleDataset [''milk'', ''butter''] = Finite False (1 / 4)"
  by (simp_all add: support1_def supportK_def example_fields f64_of_int_small round64_quarters)

lemma example_L1:
  "findL1 exampleDataset (Finite False (1 / 2)) =
     [\<lparr>Items = [''bread''], Support = Finite False (3 / 4), Length = 1\<rparr>,
      \<lparr>Items = [''butter''], Support = Finite False (1 / 2), Length = 1\<rparr>,
      \<lparr>Items = [''milk''], Support = Finite False (3 / 4), Length = 1\<rparr>]"
  by (simp add: findL1_eq example_fields example_supports signed_def)

lemma sort_pairs:
  "sort [''bread'', ''butter''] = [''bread'', ''butter'']"
  "sort [''bread'', ''milk''] = [''bread'', ''milk'']"
  "sort [''butter'', ''milk''] = [''butter'', ''milk'']"
  by code_simp+

lemma example_C2:
  "generateCandidates
     [\<lparr>Items = [''bread''], Support = s1, Length = 1\<rparr>,
      \<lparr>Items = [''butter''], Support = s2, Length = 1\<rparr>,
      \<lparr>Items = [''milk''], Support = s3, Length = 1\<rparr>] 2 =
   Inr [\<lparr>Items = [''bread'', ''butter''], Support = Finite False 0, Length = 2\<rparr>,
        \<lparr>Items = [''bread'', ''milk''], Support = Finite False 0, Length = 2\<rparr>,
        \<lparr>Items = [''butter'', ''milk''], Support = Finite False 0, Length = 2\<rparr>]"
  by (simp add: generateCandidates_def joinPair_def sort_pairs del: sort_key_simps)

lemma example_mining:
  "FindFrequentItemsets exampleDataset (Finite False (1 / 2)) 2 = Inr exampleItemsets"
  unfolding FindFrequentItemsets_def example_L1 Let_def exampleItemsets_def
  apply (subst levelLoop.simps)
  apply (simp add: example_C2 findLk_eq example_supports signed_def)
  apply (subst levelLoop.simps)
  apply simp
  done

lemma example_datasetOk: "datasetOk exampleDataset"
  by (simp add: datasetOk_def example_fields)

lemma round64_example:
  "round64 False (2 / 3) = Finite False (6004799503160661 / 9007199254740992)"
  "round64 False (3 / 5) = Finite False (5404319552844595 / 9007199254740992)"
  "round64 False (4 / 3) = Finite False (6004799503160661 / 4503599627370496)"
  "round64 False (3 / 8) = Finite False (3 / 8)"
  "round64 False (9 / 16) = Finite False (9 / 16)"
  "round64 s (1 / 8) = Finite s (1 / 8)"
  "round64 s (1 / 16) = Finite s (1 / 16)"
  "round64 False (6004799503160661 / 4503599627370496)
     = Finite False (6004799503160661 / 4503599627370496)"
  "round64 False (2001599834386887 / 2251799813685248)
     = Finite False (2001599834386887 / 2251799813685248)"
  "round64 False (3002399751580331 / 9007199254740992)
     = Finite False (3002399751580331 / 9007199254740992)"
  "round64 False (4503599627370496 / 3002399751580331)
     = Finite False (6755399441055743 / 4503599627370496)"
  "round64 False (2251799813685248 / 3002399751580331)
     = Finite False (6755399441055743 / 9007199254740992)"
  using round64_near[of "- 1" "2 / 3" 6004799503160661 False]
    round64_near[of "- 1" "3 / 5" 5404319552844595 False]
    round64_near[of 0 "4 / 3" 6004799503160661 False]
    round64_exact[of 3 "- 3" False] round64_exact[of 9 "- 4" False]
    round64_exact[of 1 "- 3" s] round64_exact[of 1 "- 4" s]
    round64_exact[of 6004799503160661 "- 52" False]
    round64_exact[of 2001599834386887 "- 51" False]
    round64_exact[of 3002399751580331 "- 53" False]
    round64_near[of 0 "4503599627370496 / 3002399751580331" 6755399441055743 False]
    round64_near[of "- 1" "2251799813685248 / 3002399751580331" 6755399441055743 False]
  by (simp_all add: pow2_def)

lemma example_map:
  "buildItemsetMap exampleItemsets ''bread'' = Some (Finite False (3 / 4))"
  "buildItemsetMap exampleItemsets ''butter'' = Some (Finite False (1 / 2))"
  "buildItemsetMap exampleItemsets ''milk'' = Some (Finite False (3 / 4))"
  by (simp_all add: buildItemsetMap_def exampleItemsets_def)

lemma example_subsets:
  "generateAllSubsets [''bread'', ''butter''] = Inr [[''bread''], [''butter''], [''bread'', ''butter'']]"
  "generateAllSubsets [''bread'', ''milk''] = Inr [[''bread''], [''milk''], [''bread'', ''milk'']]"
  by code_simp+

lemma example_steps:
  "ruleStep (buildItemsetMap exampleItemsets) (round64 False (3 / 5))
     \<lparr>Items = [''bread'', ''butter''], Support = Finite False (1 / 2), Length = 2\<rparr> [''bread'']
   = Emit (exampleRules ! 0)"
  "ruleStep (buildItemsetMap exampleItemsets) (round64 False (3 / 5))
     \<lparr>Items = [''bread'', ''butter''], Support = Finite False (1 / 2), Length = 2\<rparr> [''butter'']
   = Emit (exampleRules ! 1)"
  "ruleStep (buildItemsetMap exampleItemsets) (round64 False (3 / 5))
     \<lparr>Items = [''bread'', ''milk''], Support = Finite False (1 / 2), Length = 2\<rparr> [''bread'']
   = Emit (exampleRules ! 2)"
  "ruleStep (buildItemsetMap exampleItemsets) (round64 False (3 / 5))
     \<lparr>Items = [''bread'', ''milk''], Support = Finite False (1 / 2), Length = 2\<rparr> [''milk'']
   = Emit (exampleRules ! 3)"
  "ruleStep m c \<lparr>Items = [x, y], Support = s, Length = 2\<rparr> [x, y] = SkipTrivial"
  by (simp_all add: ruleStep_def difference_eq example_map round64_example round64_quarters
      conviction_def f64_one_def f64_inf_def signed_def exampleRules_def Let_def)

lemma example_outcomes:
  "ruleOutcomes exampleItemsets (round64 False (3 / 5)) =
     Inr [Emit (exampleRules ! 0), Emit (exampleRules ! 1), SkipTrivial,
          Emit (exampleRules ! 2), Emit (exampleRules ! 3), SkipTrivial]"
  unfolding ruleOutcomes_def
  by (simp add: exampleItemsets_def itemsetSteps_def example_subsets)
     (simp add: exampleItemsets_def[symmetric] example_steps)

lemma example_rules:
  "GenerateAssociationRules exampleItemsets (round64 False (3 / 5)) = Inr exampleRules"
  by (simp add: GenerateAssociationRules_def example_outcomes) (simp add: exampleRules_def)

lemma example_L1_zero:
  "findL1 exampleDataset (Finite False 0) =
     [\<lparr>Items = [''bread''], Support = Finite False (3 / 4), Length = 1\<rparr>,
      \<lparr>Items = [''butter''], Support = Finite False (1 / 2), Length = 1\<rparr>,
      \<lparr>Items = [''milk''], Support = Finite False (3 / 4), Length = 1\<rparr>]"
  by (simp add: findL1_eq example_fields example_supports signed_def)

section \<open>The claims\<close>

text \<open>
  C1. On a dataset that satisfies the invariants, mining returns a list, and for every
  itemset \<open>F\<close> of it with \<open>k > 1\<close> items, every subset of \<open>k - 1\<close> of the items of \<open>F\<close> is
  the items of an itemset \<open>G\<close> of the same list, in sorted order and at the level \<open>k - 1\<close>.
  This holds for every \<^verbatim>\<open>minSupport\<close> and every \<^verbatim>\<open>maxLen\<close>.
\<close>

theorem downward_closure:
  assumes "datasetOk dataset"
  shows "\<exists>result. FindFrequentItemsets dataset minSupport maxLen = Inr result \<and>
           (\<forall>F\<in>set result. \<forall>S. 1 < Length F \<and> S \<subseteq> set (Items F) \<and> int (card S) = Length F - 1 \<longrightarrow>
              (\<exists>G\<in>set result. set (Items G) = S \<and> Items G = sorted_list_of_set S
                  \<and> Length G = Length F - 1))"
proof -
  from FindFrequentItemsets_resultOk[OF datasetOk_distinct[OF assms]] obtain result where
    r: "FindFrequentItemsets dataset minSupport maxLen = Inr result" "resultOk result" by blast
  have "\<exists>G\<in>set result. set (Items G) = S \<and> Items G = sorted_list_of_set S
          \<and> Length G = Length F - 1"
    if F: "F \<in> set result" and k: "1 < Length F" and S: "S \<subseteq> set (Items F)"
      and c: "int (card S) = Length F - 1" for F S
  proof -
    have w: "Length F = int (length (Items F))" "sorted_wrt (<) (Items F)"
      using r(2) F by (simp_all add: resultOk_iff)
    have d: "distinct (Items F)" using w(2) strict_sorted_iff by blast
    have len: "1 < length (Items F)" using k w(1) by simp
    then have ne: "Items F \<noteq> []" by auto
    have "card S = length (Items F) - 1" using c w(1) len by simp
    from subset_one_less[OF d S this ne] obtain l where
      l: "l < length (Items F)" "S = set (removeAt l (Items F))" by blast
    have "removeAt l (Items F) \<in> Items ` set result"
      using r(2) F len l(1) by (simp add: resultOk_iff)
    then obtain G where G: "G \<in> set result" "Items G = removeAt l (Items F)" by auto
    have sG: "sorted_wrt (<) (Items G)" using G(2) w(2) by (simp add: sorted_removeAt)
    have g1: "set (Items G) = S" using l(2) G(2) by simp
    have g2: "Items G = sorted_list_of_set S"
      using sG g1 by (metis sorted_list_of_set.idem_if_sorted_distinct strict_sorted_iff)
    have "Length G = int (length (Items G))" using r(2) G(1) by (simp add: resultOk_iff)
    moreover have "length (Items G) = length (Items F) - 1"
      using G(2) l(1) by (simp add: removeAt_def)
    ultimately have g3: "Length G = Length F - 1" using w(1) len by simp
    show ?thesis using G(1) g1 g2 g3 by blast
  qed
  then show ?thesis using r(1) by blast
qed

theorem downward_closure_witness:
  "datasetOk exampleDataset
   \<and> FindFrequentItemsets exampleDataset (Finite False (1 / 2)) 2 = Inr exampleItemsets
   \<and> (\<exists>G\<in>set exampleItemsets. set (Items G) = {''butter''}
          \<and> Items G = sorted_list_of_set {''butter''} \<and> Length G = 1)"
proof -
  from downward_closure[OF example_datasetOk, of "Finite False (1 / 2)" 2]
  have a: "\<forall>F\<in>set exampleItemsets. \<forall>S. 1 < Length F \<and> S \<subseteq> set (Items F)
      \<and> int (card S) = Length F - 1 \<longrightarrow>
      (\<exists>G\<in>set exampleItemsets. set (Items G) = S \<and> Items G = sorted_list_of_set S
          \<and> Length G = Length F - 1)"
    by (simp add: example_mining)
  have "\<exists>G\<in>set exampleItemsets. set (Items G) = {''butter''}
          \<and> Items G = sorted_list_of_set {''butter''} \<and> Length G = 2 - 1"
    using a[rule_format, of "\<lparr>Items = [''bread'', ''butter''], Support = Finite False (1 / 2),
        Length = 2\<rparr>" "{''butter''}"]
    by (simp add: exampleItemsets_def)
  then show ?thesis using example_datasetOk example_mining by simp
qed

text \<open>
  C2. On the list that mining returns for a dataset satisfying the invariants, and for
  every itemset of it with \<^verbatim>\<open>Length > 1\<close>, every antecedent enumerated by
  \<^verbatim>\<open>generateAllSubsets\<close> that is neither empty nor the whole itemset has its key in
  \<^verbatim>\<open>itemsetMap\<close>, and so has its consequent: the loop body never takes one of the two
  \<^verbatim>\<open>continue\<close> of a failed lookup, and no run of the rule generator does.
\<close>

theorem lookups_succeed:
  assumes "datasetOk dataset"
  shows "\<exists>result. FindFrequentItemsets dataset minSupport maxLen = Inr result
     \<and> (\<forall>F\<in>set result. \<forall>antecedents. \<forall>antecedent\<in>set antecedents.
           1 < Length F \<and> generateAllSubsets (Items F) = Inr antecedents
           \<and> length antecedent \<noteq> 0 \<and> length antecedent \<noteq> length (Items F) \<longrightarrow>
             buildItemsetMap result (Join antecedent '','') \<noteq> None
           \<and> buildItemsetMap result (Join (difference (Items F) antecedent) '','') \<noteq> None
           \<and> ruleStep (buildItemsetMap result) minConfidence F antecedent \<noteq> MissingAntecedent
           \<and> ruleStep (buildItemsetMap result) minConfidence F antecedent \<noteq> MissingConsequent)
     \<and> (\<forall>os. ruleOutcomes result minConfidence = Inr os \<longrightarrow>
           MissingAntecedent \<notin> set os \<and> MissingConsequent \<notin> set os)"
proof -
  from FindFrequentItemsets_resultOk[OF datasetOk_distinct[OF assms]] obtain result where
    r: "FindFrequentItemsets dataset minSupport maxLen = Inr result" "resultOk result" by blast
  have "buildItemsetMap result (Join antecedent '','') \<noteq> None
           \<and> buildItemsetMap result (Join (difference (Items F) antecedent) '','') \<noteq> None
           \<and> ruleStep (buildItemsetMap result) minConfidence F antecedent \<noteq> MissingAntecedent
           \<and> ruleStep (buildItemsetMap result) minConfidence F antecedent \<noteq> MissingConsequent"
    if "F \<in> set result" "generateAllSubsets (Items F) = Inr antecedents"
      "antecedent \<in> set antecedents" "length antecedent \<noteq> 0"
      "length antecedent \<noteq> length (Items F)"
    for F antecedents antecedent
    using resultOk_lookups[OF r(2) that] ruleStep_no_miss by simp
  then show ?thesis using r(1) resultOk_outcomes[OF r(2)] by blast
qed

theorem lookups_succeed_witness:
  "datasetOk exampleDataset
   \<and> FindFrequentItemsets exampleDataset (Finite False (1 / 2)) 2 = Inr exampleItemsets
   \<and> generateAllSubsets [''bread'', ''butter'']
        = Inr [[''bread''], [''butter''], [''bread'', ''butter'']]
   \<and> buildItemsetMap exampleItemsets (Join [''bread''] '','') \<noteq> None
   \<and> buildItemsetMap exampleItemsets (Join (difference [''bread'', ''butter''] [''bread'']) '','')
        \<noteq> None
   \<and> MissingAntecedent \<notin> set [Emit (exampleRules ! 0), Emit (exampleRules ! 1), SkipTrivial,
          Emit (exampleRules ! 2), Emit (exampleRules ! 3), SkipTrivial]"
proof -
  from lookups_succeed[OF example_datasetOk, of "Finite False (1 / 2)" 2 "round64 False (3 / 5)"]
  have a: "\<forall>F\<in>set exampleItemsets. \<forall>antecedents. \<forall>antecedent\<in>set antecedents.
           1 < Length F \<and> generateAllSubsets (Items F) = Inr antecedents
           \<and> length antecedent \<noteq> 0 \<and> length antecedent \<noteq> length (Items F) \<longrightarrow>
             buildItemsetMap exampleItemsets (Join antecedent '','') \<noteq> None
           \<and> buildItemsetMap exampleItemsets (Join (difference (Items F) antecedent) '','') \<noteq> None"
    and b: "\<forall>os. ruleOutcomes exampleItemsets (round64 False (3 / 5)) = Inr os \<longrightarrow>
           MissingAntecedent \<notin> set os \<and> MissingConsequent \<notin> set os"
    unfolding example_mining by auto
  have "buildItemsetMap exampleItemsets (Join [''bread''] '','') \<noteq> None
   \<and> buildItemsetMap exampleItemsets (Join (difference [''bread'', ''butter''] [''bread'']) '','')
        \<noteq> None"
    using a[rule_format, of "\<lparr>Items = [''bread'', ''butter''], Support = Finite False (1 / 2),
        Length = 2\<rparr>" "[''bread'']" "[[''bread''], [''butter''], [''bread'', ''butter'']]"]
    by (simp add: exampleItemsets_def example_subsets)
  moreover have "MissingAntecedent \<notin> set [Emit (exampleRules ! 0), Emit (exampleRules ! 1),
          SkipTrivial, Emit (exampleRules ! 2), Emit (exampleRules ! 3), SkipTrivial]"
    using b[rule_format, OF example_outcomes] by blast
  ultimately show ?thesis using example_datasetOk example_mining example_subsets by blast
qed

text \<open>
  C3 (as amended). On the four transactions of the example with \<^verbatim>\<open>minSupport = 0.5\<close> and
  \<^verbatim>\<open>maxLen = 2\<close>: level 1 is bread (0.75), butter (0.5, at the threshold) and milk (0.75);
  the candidates of level 2 are the three pairs, with the supports 0.5 for bread and butter
  (kept), 0.5 for bread and milk (kept) and 0.25 for butter and milk (dropped: the third
  transaction holds both). With \<^verbatim>\<open>minConfidence = 0.6\<close> the four rules between bread and
  butter and between bread and milk are returned, with the confidence \<open>0.5 / 0.75\<close>, but for
  butter to bread: confidence \<open>1.0\<close> and conviction \<open>+\<infinity>\<close>.
\<close>

theorem example_run:
  "findL1 exampleDataset (Finite False (1 / 2)) =
     [\<lparr>Items = [''bread''], Support = Finite False (3 / 4), Length = 1\<rparr>,
      \<lparr>Items = [''butter''], Support = Finite False (1 / 2), Length = 1\<rparr>,
      \<lparr>Items = [''milk''], Support = Finite False (3 / 4), Length = 1\<rparr>]
   \<and> generateCandidates (findL1 exampleDataset (Finite False (1 / 2))) 2 =
     Inr [\<lparr>Items = [''bread'', ''butter''], Support = Finite False 0, Length = 2\<rparr>,
          \<lparr>Items = [''bread'', ''milk''], Support = Finite False 0, Length = 2\<rparr>,
          \<lparr>Items = [''butter'', ''milk''], Support = Finite False 0, Length = 2\<rparr>]
   \<and> supportK exampleDataset [''bread'', ''butter''] = Finite False (1 / 2)
   \<and> supportK exampleDataset [''bread'', ''milk''] = Finite False (1 / 2)
   \<and> supportK exampleDataset [''butter'', ''milk''] = Finite False (1 / 4)
   \<and> fge (supportK exampleDataset [''bread'', ''butter'']) (Finite False (1 / 2))
   \<and> fge (supportK exampleDataset [''bread'', ''milk'']) (Finite False (1 / 2))
   \<and> \<not> fge (supportK exampleDataset [''butter'', ''milk'']) (Finite False (1 / 2))
   \<and> FindFrequentItemsets exampleDataset (Finite False (1 / 2)) 2 = Inr exampleItemsets
   \<and> GenerateAssociationRules exampleItemsets (round64 False (3 / 5)) = Inr exampleRules
   \<and> map (\<lambda>r. (Antecedent r, Consequent r)) exampleRules =
       [([''bread''], [''butter'']), ([''butter''], [''bread'']),
        ([''bread''], [''milk'']), ([''milk''], [''bread''])]
   \<and> map Confidence exampleRules =
       [fdiv (Finite False (1 / 2)) (Finite False (3 / 4)), Finite False 1,
        fdiv (Finite False (1 / 2)) (Finite False (3 / 4)),
        fdiv (Finite False (1 / 2)) (Finite False (3 / 4))]
   \<and> fge (fdiv (Finite False (1 / 2)) (Finite False (3 / 4))) (round64 False (3 / 5))
   \<and> ConvictionMetric (exampleRules ! 1) = f64_inf"
proof -
  have "map (\<lambda>r. (Antecedent r, Consequent r)) exampleRules =
       [([''bread''], [''butter'']), ([''butter''], [''bread'']),
        ([''bread''], [''milk'']), ([''milk''], [''bread''])]"
    "map Confidence exampleRules =
       [fdiv (Finite False (1 / 2)) (Finite False (3 / 4)), Finite False 1,
        fdiv (Finite False (1 / 2)) (Finite False (3 / 4)),
        fdiv (Finite False (1 / 2)) (Finite False (3 / 4))]"
    "fge (fdiv (Finite False (1 / 2)) (Finite False (3 / 4))) (round64 False (3 / 5))"
    "ConvictionMetric (exampleRules ! 1) = f64_inf"
    by (simp_all add: exampleRules_def round64_example f64_inf_def signed_def)
  then show ?thesis
    unfolding example_L1 example_C2 example_supports
    using example_mining example_rules by (simp add: signed_def)
qed

theorem example_run_witness:
  "FindFrequentItemsets exampleDataset (Finite False (1 / 2)) 2 = Inr exampleItemsets
   \<and> GenerateAssociationRules exampleItemsets (round64 False (3 / 5)) = Inr exampleRules
   \<and> supportK exampleDataset [''butter'', ''milk''] = Finite False (1 / 4)"
  using example_run by blast

text \<open>
  C3 as stated fails: the support counted for butter and milk, the third candidate, is
  \<open>0.25\<close> and not \<open>0\<close>.
\<close>

theorem example_run_counterexample:
  "generateCandidates (findL1 exampleDataset (Finite False (1 / 2))) 2 =
     Inr [\<lparr>Items = [''bread'', ''butter''], Support = Finite False 0, Length = 2\<rparr>,
          \<lparr>Items = [''bread'', ''milk''], Support = Finite False 0, Length = 2\<rparr>,
          \<lparr>Items = [''butter'', ''milk''], Support = Finite False 0, Length = 2\<rparr>]
   \<and> supportK exampleDataset [''butter'', ''milk''] = Finite False (1 / 4)
   \<and> supportK exampleDataset [''milk'', ''butter''] = Finite False (1 / 4)
   \<and> supportK exampleDataset [''butter'', ''milk''] \<noteq> Finite False 0
   \<and> \<not> feq (supportK exampleDataset [''butter'', ''milk'']) (Finite False 0)"
  unfolding example_L1 example_C2 example_supports by (simp add: signed_def)

text \<open>
  C4 (as amended). The engine checks no parameter, and it returns a list for every dataset
  and all parameters. With \<^verbatim>\<open>minSupport > 1\<close> the list is empty. With \<^verbatim>\<open>maxLen < 1\<close> the
  level loop is not entered and the list is level 1, the universe items whose support
  reaches \<^verbatim>\<open>minSupport\<close>. With \<^verbatim>\<open>minSupport <= 0\<close> and at least one transaction (and
  fewer than \<open>2 ^ 63\<close>, as a slice has) level 1 holds every item of the universe.
\<close>

theorem invalid_parameters:
  "(\<exists>result. FindFrequentItemsets dataset minSupport maxLen = Inr result)
   \<and> (flt f64_one minSupport \<longrightarrow> FindFrequentItemsets dataset minSupport maxLen = Inr [])
   \<and> (maxLen < 1 \<longrightarrow>
        FindFrequentItemsets dataset minSupport maxLen = Inr (findL1 dataset minSupport))
   \<and> (fge (Finite False 0) minSupport \<and> Transactions dataset \<noteq> []
        \<and> length (Transactions dataset) < 2 ^ 63 \<longrightarrow>
        map Items (findL1 dataset minSupport) = map (\<lambda>item. [item]) (UniqueItems dataset))"
proof -
  have "FindFrequentItemsets dataset minSupport maxLen = Inr []" if "flt f64_one minSupport"
    using findL1_above_one[OF that, of dataset]
    by (simp add: FindFrequentItemsets_def levelLoop_Nil)
  then show ?thesis
    using FindFrequentItemsets_returns[of dataset minSupport maxLen]
      FindFrequentItemsets_no_loop[of maxLen dataset minSupport]
      findL1_nonpositive[of minSupport dataset]
    by simp
qed

theorem invalid_parameters_witness:
  "flt f64_one (Finite False 2)
   \<and> FindFrequentItemsets exampleDataset (Finite False 2) 2 = Inr []
   \<and> FindFrequentItemsets exampleDataset (Finite False (1 / 2)) 0
        = Inr (findL1 exampleDataset (Finite False (1 / 2)))
   \<and> fge (Finite False 0) (Finite True 1)
   \<and> map Items (findL1 exampleDataset (Finite True 1)) = [[''bread''], [''butter''], [''milk'']]"
proof -
  have a: "flt f64_one (Finite False 2)" "(0::int) < 1" "fge (Finite False 0) (Finite True 1)"
    "Transactions exampleDataset \<noteq> []" "length (Transactions exampleDataset) < 2 ^ 63"
    by (simp_all add: f64_one_def signed_def example_fields)
  show ?thesis
    using invalid_parameters[of exampleDataset "Finite False 2" 2]
      invalid_parameters[of exampleDataset "Finite False (1 / 2)" 0]
      invalid_parameters[of exampleDataset "Finite True 1" 2] a
    by (simp add: example_fields)
qed

text \<open>
  C4 as stated fails: on the example, \<^verbatim>\<open>maxLen = 0\<close> returns the three itemsets of level
  1, and so does \<^verbatim>\<open>minSupport = 0\<close> (with \<^verbatim>\<open>maxLen = 1\<close>).
\<close>

theorem invalid_parameters_counterexample:
  "FindFrequentItemsets exampleDataset (Finite False (1 / 2)) 0 =
     Inr [\<lparr>Items = [''bread''], Support = Finite False (3 / 4), Length = 1\<rparr>,
          \<lparr>Items = [''butter''], Support = Finite False (1 / 2), Length = 1\<rparr>,
          \<lparr>Items = [''milk''], Support = Finite False (3 / 4), Length = 1\<rparr>]
   \<and> FindFrequentItemsets exampleDataset (Finite False (1 / 2)) 0 \<noteq> Inr []
   \<and> FindFrequentItemsets exampleDataset (Finite False 0) 1 =
     Inr [\<lparr>Items = [''bread''], Support = Finite False (3 / 4), Length = 1\<rparr>,
          \<lparr>Items = [''butter''], Support = Finite False (1 / 2), Length = 1\<rparr>,
          \<lparr>Items = [''milk''], Support = Finite False (3 / 4), Length = 1\<rparr>]
   \<and> FindFrequentItemsets exampleDataset (Finite False 0) 1 \<noteq> Inr []"
  by (simp add: FindFrequentItemsets_no_loop example_L1 example_L1_zero)




text \<open>
  C6. Every rule returned has as conviction the quotient
  \<open>(1 - consequentSupport) / (1 - confidence)\<close> of the division path when neither the support
  of its consequent nor its confidence equals \<open>1.0\<close>, and \<open>+\<infinity>\<close> when one of them does: the
  special case never takes the division path. The supports of the itemsets are between 0 and
  1, as a support is in the data model and as the supports that mining computes are (lemma
  \<open>mining_supports\<close>); then the quotient is not \<open>+\<infinity>\<close>, and the conviction is \<open>+\<infinity>\<close> exactly
  when the support of the consequent or the confidence equals \<open>1.0\<close>.
\<close>

theorem conviction_metric:
  assumes g: "GenerateAssociationRules itemsets minConfidence = Inr rules"
  shows "\<forall>r\<in>set rules. \<exists>consequentSupport.
           buildItemsetMap itemsets (Join (Consequent r) '','') = Some consequentSupport
           \<and> (feq consequentSupport f64_one \<or> feq (Confidence r) f64_one
                \<longrightarrow> ConvictionMetric r = f64_inf)
           \<and> (\<not> (feq consequentSupport f64_one \<or> feq (Confidence r) f64_one)
                \<longrightarrow> ConvictionMetric r
                      = fdiv (fsub f64_one consequentSupport) (fsub f64_one (Confidence r)))
           \<and> (list_all (\<lambda>F. unitSupport (FrequentItemset.Support F)) itemsets
                \<longrightarrow> (ConvictionMetric r = f64_inf
                       \<longleftrightarrow> feq consequentSupport f64_one \<or> feq (Confidence r) f64_one))"
proof
  fix r assume "r \<in> set rules"
  from GenerateAssociationRules_mem[OF g this] obtain F antecedent where
    F: "F \<in> set itemsets"
      "ruleStep (buildItemsetMap itemsets) minConfidence F antecedent = Emit r"
    by blast
  from ruleStep_Emit(6)[OF F(2)] obtain a c where
    ac: "buildItemsetMap itemsets (Join (Consequent r) '','') = Some c"
      "Confidence r = fdiv (FrequentItemset.Support F) a"
      "ConvictionMetric r = conviction c (Confidence r)"
    by blast
  have "ConvictionMetric r = f64_inf \<longleftrightarrow> feq c f64_one \<or> feq (Confidence r) f64_one"
    if "list_all (\<lambda>F. unitSupport (FrequentItemset.Support F)) itemsets"
  proof -
    from buildItemsetMap_Some[OF ac(1)] that have "fge c (Finite False 0)" "fge f64_one c"
      by (auto simp add: list_all_iff unitSupport_def)
    then show ?thesis unfolding ac(3) unfolding ac(2) by (rule conviction_inf_iff)
  qed
  moreover have "feq c f64_one \<or> feq (Confidence r) f64_one \<longrightarrow> ConvictionMetric r = f64_inf"
    "\<not> (feq c f64_one \<or> feq (Confidence r) f64_one) \<longrightarrow>
      ConvictionMetric r = fdiv (fsub f64_one c) (fsub f64_one (Confidence r))"
    unfolding ac(3) by (simp_all add: conviction_def)
  ultimately show "\<exists>consequentSupport.
           buildItemsetMap itemsets (Join (Consequent r) '','') = Some consequentSupport
           \<and> (feq consequentSupport f64_one \<or> feq (Confidence r) f64_one
                \<longrightarrow> ConvictionMetric r = f64_inf)
           \<and> (\<not> (feq consequentSupport f64_one \<or> feq (Confidence r) f64_one)
                \<longrightarrow> ConvictionMetric r
                      = fdiv (fsub f64_one consequentSupport) (fsub f64_one (Confidence r)))
           \<and> (list_all (\<lambda>F. unitSupport (FrequentItemset.Support F)) itemsets
                \<longrightarrow> (ConvictionMetric r = f64_inf
                       \<longleftrightarrow> feq consequentSupport f64_one \<or> feq (Confidence r) f64_one))"
    using ac(1) by blast
qed

theorem conviction_metric_witness:
  "list_all (\<lambda>F. unitSupport (FrequentItemset.Support F)) exampleItemsets
   \<and> GenerateAssociationRules exampleItemsets (round64 False (3 / 5)) = Inr exampleRules
   \<and> buildItemsetMap exampleItemsets (Join (Consequent (exampleRules ! 1)) '','')
        = Some (Finite False (3 / 4))
   \<and> feq (Confidence (exampleRules ! 1)) f64_one
   \<and> ConvictionMetric (exampleRules ! 1) = f64_inf
   \<and> buildItemsetMap exampleItemsets (Join (Consequent (exampleRules ! 0)) '','')
        = Some (Finite False (1 / 2))
   \<and> ConvictionMetric (exampleRules ! 0)
        = fdiv (fsub f64_one (Finite False (1 / 2))) (fsub f64_one (Confidence (exampleRules ! 0)))
   \<and> ConvictionMetric (exampleRules ! 0) \<noteq> f64_inf"
proof -
  have l: "list_all (\<lambda>F. unitSupport (FrequentItemset.Support F)) exampleItemsets"
    by (simp add: exampleItemsets_def unitSupport_def f64_one_def signed_def)
  have m: "exampleRules ! 0 \<in> set exampleRules" "exampleRules ! 1 \<in> set exampleRules"
    by (simp_all add: exampleRules_def)
  have c: "Consequent (exampleRules ! 0) = [''butter'']" "Consequent (exampleRules ! 1) = [''bread'']"
    "feq (Confidence (exampleRules ! 1)) f64_one"
    "\<not> feq (Confidence (exampleRules ! 0)) f64_one"
    by (simp_all add: exampleRules_def f64_one_def signed_def)
  have k: "Join [''butter''] '','' = ''butter''" "Join [''bread''] '','' = ''bread''" by simp_all
  note t = conviction_metric[OF example_rules, rule_format]
  from t[OF m(1)] c(4) l
  have r0: "ConvictionMetric (exampleRules ! 0)
        = fdiv (fsub f64_one (Finite False (1 / 2))) (fsub f64_one (Confidence (exampleRules ! 0)))"
    "ConvictionMetric (exampleRules ! 0) \<noteq> f64_inf"
    unfolding c(1) k example_map by (auto simp add: f64_one_def signed_def)
  from t[OF m(2)] c(3)
  have r1: "ConvictionMetric (exampleRules ! 1) = f64_inf"
    unfolding c(2) k example_map by auto
  have e: "buildItemsetMap exampleItemsets (Join (Consequent (exampleRules ! 1)) '','')
        = Some (Finite False (3 / 4))"
    "buildItemsetMap exampleItemsets (Join (Consequent (exampleRules ! 0)) '','')
        = Some (Finite False (1 / 2))"
    unfolding c k example_map by simp_all
  show ?thesis using l example_rules e c(3) r0 r1 by blast
qed

text \<open>
  C7. An itemset holds distinct items, as a set does and as the itemsets that mining returns
  do (lemma \<open>mining_items_distinct\<close>). For a list of such itemsets, every rule returned has a
  non-empty antecedent and a non-empty consequent that share no item, and together they hold
  exactly the items of an itemset of the list, whose support is the support of the rule.
\<close>

theorem rule_partition:
  assumes d: "\<forall>F\<in>set itemsets. distinct (Items F)"
    and g: "GenerateAssociationRules itemsets minConfidence = Inr rules"
  shows "\<forall>r\<in>set rules. Antecedent r \<noteq> [] \<and> Consequent r \<noteq> []
           \<and> set (Antecedent r) \<inter> set (Consequent r) = {}
           \<and> (\<exists>F\<in>set itemsets. set (Antecedent r) \<union> set (Consequent r) = set (Items F)
                 \<and> AssociationRule.Support r = FrequentItemset.Support F)"
proof
  fix r assume "r \<in> set rules"
  from GenerateAssociationRules_mem[OF g this] obtain F antecedents antecedent where
    F: "F \<in> set itemsets" "generateAllSubsets (Items F) = Inr antecedents"
      "antecedent \<in> set antecedents"
      "ruleStep (buildItemsetMap itemsets) minConfidence F antecedent = Emit r"
    by blast
  note e = ruleStep_Emit[OF F(4)]
  from generateAllSubsets_mem[OF F(2,3)] obtain i where i: "antecedent = maskSubset (Items F) i"
    by blast
  have dF: "distinct (Items F)" using d F(1) by simp
  have s: "set antecedent \<subseteq> set (Items F)" "distinct antecedent"
    unfolding i using maskSubset_set maskSubset_distinct[OF dF] by auto
  have "Consequent r \<noteq> []"
    unfolding e(4) using proper_sublist_complement[OF dF s(2,1) e(2)] .
  moreover have "set (Antecedent r) \<inter> set (Consequent r) = {}"
    unfolding e(3,4) by (auto simp add: difference_set)
  moreover have "set (Antecedent r) \<union> set (Consequent r) = set (Items F)"
    unfolding e(3,4) using s(1) by (auto simp add: difference_set)
  ultimately show "Antecedent r \<noteq> [] \<and> Consequent r \<noteq> []
           \<and> set (Antecedent r) \<inter> set (Consequent r) = {}
           \<and> (\<exists>F\<in>set itemsets. set (Antecedent r) \<union> set (Consequent r) = set (Items F)
                 \<and> AssociationRule.Support r = FrequentItemset.Support F)"
    using e(1,3,5) F(1) by blast
qed

theorem rule_partition_witness:
  "list_all (\<lambda>F. distinct (Items F)) exampleItemsets
   \<and> GenerateAssociationRules exampleItemsets (round64 False (3 / 5)) = Inr exampleRules
   \<and> Antecedent (exampleRules ! 0) = [''bread''] \<and> Consequent (exampleRules ! 0) = [''butter'']
   \<and> set (Antecedent (exampleRules ! 0)) \<inter> set (Consequent (exampleRules ! 0)) = {}
   \<and> (\<exists>F\<in>set exampleItemsets.
         set (Antecedent (exampleRules ! 0)) \<union> set (Consequent (exampleRules ! 0)) = set (Items F)
         \<and> AssociationRule.Support (exampleRules ! 0) = FrequentItemset.Support F)"
proof -
  have h: "\<forall>F\<in>set exampleItemsets. distinct (Items F)" by (simp add: exampleItemsets_def)
  have m: "exampleRules ! 0 \<in> set exampleRules" by (simp add: exampleRules_def)
  from rule_partition[OF h example_rules, rule_format, OF m] h example_rules
  show ?thesis by (simp add: list_all_iff) (simp add: exampleRules_def)
qed

text \<open>
  C9. On a dataset that satisfies the invariants, for every \<^verbatim>\<open>minSupport\<close> and every
  \<^verbatim>\<open>maxLen\<close>, mining returns a list in which no two itemsets have the same items.
\<close>

theorem output_distinct:
  assumes "datasetOk dataset"
  shows "\<exists>result. FindFrequentItemsets dataset minSupport maxLen = Inr result
           \<and> distinct (map Items result)"
  using FindFrequentItemsets_resultOk[OF datasetOk_distinct[OF assms], of minSupport maxLen]
  by (auto simp add: resultOk_iff)

theorem output_distinct_witness:
  "datasetOk exampleDataset
   \<and> FindFrequentItemsets exampleDataset (Finite False (1 / 2)) 2 = Inr exampleItemsets
   \<and> distinct (map Items exampleItemsets)"
  using output_distinct[OF example_datasetOk, of "Finite False (1 / 2)" 2]
    example_datasetOk example_mining
  by simp

text \<open>
  C10. When every itemset given to \<^verbatim>\<open>generateCandidates\<close> has \<open>k - 1\<close> strictly sorted items
  without a duplicate, and no two of them have the same items, the call returns candidates,
  each with \<open>k\<close> strictly sorted, distinct items and with \<^verbatim>\<open>Length\<close> \<open>k\<close>.
\<close>

theorem candidates_well_formed:
  assumes w: "\<forall>a\<in>set itemsets. sorted_wrt (<) (Items a) \<and> distinct (Items a)
                \<and> int (length (Items a)) = k - 1"
    and d: "distinct (map Items itemsets)"
  shows "\<exists>Ck. generateCandidates itemsets k = Inr Ck
           \<and> (\<forall>c\<in>set Ck. sorted_wrt (<) (Items c) \<and> distinct (Items c)
                 \<and> int (length (Items c)) = k \<and> card (set (Items c)) = nat k \<and> Length c = k)"
proof (cases "2 \<le> k")
  case True
  define n where "n = nat (k - 2)"
  have k: "k = int n + 2" using True by (simp add: n_def)
  have "levelOk (Suc n) itemsets"
    using w d k by (auto simp add: levelOk_def list_all_iff)
  from generateCandidates_levelOk[OF k this] obtain Ck where
    Ck: "generateCandidates itemsets k = Inr Ck" "levelOk (n + 2) Ck" "\<forall>c\<in>set Ck. Length c = k"
    by blast
  have "sorted_wrt (<) (Items c) \<and> distinct (Items c)
          \<and> int (length (Items c)) = k \<and> card (set (Items c)) = nat k \<and> Length c = k"
    if "c \<in> set Ck" for c
  proof -
    have s: "sorted_wrt (<) (Items c)" "length (Items c) = n + 2"
      using levelOk_mem[OF Ck(2) that] by simp_all
    have dc: "distinct (Items c)" using s(1) strict_sorted_iff by blast
    then have "card (set (Items c)) = n + 2" using s(2) by (simp add: distinct_card)
    then show ?thesis using s dc k Ck(3) that by simp
  qed
  then show ?thesis using Ck(1) by blast
next
  case False
  have "length itemsets \<le> 1"
  proof (rule ccontr)
    assume "\<not> length itemsets \<le> 1"
    then obtain a b rest where ab: "itemsets = a # b # rest"
      by (cases itemsets; cases "tl itemsets") auto
    then have "int (length (Items a)) = k - 1" "int (length (Items b)) = k - 1" using w by simp_all
    then have "length (Items a) = 0" "length (Items b) = 0" using False by linarith+
    then have "Items a = []" "Items b = []" by simp_all
    then show False using d ab by simp
  qed
  then have "itemsets = [] \<or> (\<exists>a. itemsets = [a])"
    by (cases itemsets; cases "tl itemsets") auto
  then show ?thesis by (auto simp add: generateCandidates_def)
qed

theorem candidates_well_formed_witness:
  "generateCandidates (findL1 exampleDataset (Finite False (1 / 2))) 2 =
     Inr [\<lparr>Items = [''bread'', ''butter''], Support = Finite False 0, Length = 2\<rparr>,
          \<lparr>Items = [''bread'', ''milk''], Support = Finite False 0, Length = 2\<rparr>,
          \<lparr>Items = [''butter'', ''milk''], Support = Finite False 0, Length = 2\<rparr>]
   \<and> distinct (map Items (findL1 exampleDataset (Finite False (1 / 2))))
   \<and> sorted_wrt (<) [''butter'', ''milk''] \<and> distinct [''butter'', ''milk'']
   \<and> card (set [''butter'', ''milk'']) = 2"
proof -
  let ?L1 = "findL1 exampleDataset (Finite False (1 / 2))"
  have h: "\<forall>a\<in>set ?L1. sorted_wrt (<) (Items a) \<and> distinct (Items a)
      \<and> int (length (Items a)) = 2 - 1" "distinct (map Items ?L1)"
    by (simp_all add: example_L1)
  from candidates_well_formed[OF h]
  have "\<forall>c\<in>set [\<lparr>Items = [''bread'', ''butter''], Support = Finite False 0, Length = 2\<rparr>,
          \<lparr>Items = [''bread'', ''milk''], Support = Finite False 0, Length = 2\<rparr>,
          \<lparr>Items = [''butter'', ''milk''], Support = Finite False 0, Length = 2\<rparr>].
       sorted_wrt (<) (Items c) \<and> distinct (Items c)
                 \<and> int (length (Items c)) = 2 \<and> card (set (Items c)) = nat 2 \<and> Length c = 2"
    unfolding example_L1 example_C2 by simp
  then show ?thesis unfolding example_L1 example_C2 by simp
qed

end
